theory Spec2Isabelle
  imports Main "HOL-Library.AList"
begin

section \<open>The memory graph of \<open>tools/memory_graph.py\<close> and \<open>tools/memory_tools.py\<close>\<close>

subsection \<open>Python values\<close>

text \<open>
  Metadata is \<open>Union[str, Dict[str, Any]]\<close>. The values of a metadata dict are
  modelled by strings, integers and \<open>None\<close>: enough to tell \<open>str\<close> from the
  other scalars and from values that \<open>isinstance(v, (str, int, float))\<close> rejects.
  A Python \<open>dict\<close> is an association list in insertion order
  (\<open>map_of\<close> reads it, \<open>AList.update\<close> assigns a key in place or appends it,
  \<open>AList.delete\<close> is \<open>del\<close>). A Python \<open>set\<close> of strings is a
  list without duplicates, its order standing for the iteration order of the set.
\<close>

datatype pyval = VStr string | VInt int | VNone

type_synonym pydict = "(string \<times> pyval) list"

datatype metadata_arg = MStr string | MDict pydict

datatype py_error = AttributeError | KeyError | IndexError | ZeroDivisionError

fun digit_char :: "nat \<Rightarrow> char" where
  "digit_char n = char_of (48 + n)"

fun str_nat :: "nat \<Rightarrow> string" where
  "str_nat n = (if n < 10 then [digit_char n] else str_nat (n div 10) @ [digit_char (n mod 10)])"

declare str_nat.simps [simp del]

text \<open>\<open>str(v)\<close> for a scalar.\<close>

fun py_str :: "pyval \<Rightarrow> string" where
  "py_str (VStr s) = s"
| "py_str (VInt i) = (if i < 0 then CHR ''-'' # str_nat (nat (- i)) else str_nat (nat i))"
| "py_str VNone = ''None''"

text \<open>\<open>isinstance(v, (str, int, float))\<close>\<close>

fun is_scalar :: "pyval \<Rightarrow> bool" where
  "is_scalar (VStr s) = True"
| "is_scalar (VInt i) = True"
| "is_scalar VNone = False"

text \<open>\<open>" ".join(parts)\<close>\<close>

fun join_space :: "string list \<Rightarrow> string" where
  "join_space [] = []"
| "join_space [s] = s"
| "join_space (s # t # ss) = s @ '' '' @ join_space (t # ss)"

text \<open>\<open>s.add(x)\<close> and \<open>s.remove(x)\<close> guarded by \<open>x in s\<close>, on a set kept as a list.\<close>

definition set_add :: "string \<Rightarrow> string list \<Rightarrow> string list" where
  "set_add x s = (if x \<in> set s then s else s @ [x])"

definition set_discard :: "string \<Rightarrow> string list \<Rightarrow> string list" where
  "set_discard x s = (if x \<in> set s then removeAll x s else s)"

subsection \<open>Nodes\<close>

record memory_node =
  node_id :: string
  metadata :: pydict
  edges :: "string list"

text \<open>
  \<open>MemoryNode.__init__\<close>. The identifier \<open>str(uuid.uuid4())\<close> is drawn outside
  the program; the model takes the drawn string as the argument \<open>uid\<close>.
\<close>

definition MemoryNode :: "string \<Rightarrow> metadata_arg \<Rightarrow> memory_node" where
  "MemoryNode uid md =
     \<lparr> node_id = uid,
       metadata = (case md of MStr s \<Rightarrow> [(''content'', VStr s)] | MDict d \<Rightarrow> d),
       edges = [] \<rparr>"

definition node_add_edge :: "string \<Rightarrow> memory_node \<Rightarrow> memory_node" where
  "node_add_edge target_node_id n = n\<lparr>edges := set_add target_node_id (edges n)\<rparr>"

definition node_remove_edge :: "string \<Rightarrow> memory_node \<Rightarrow> memory_node" where
  "node_remove_edge target_node_id n = n\<lparr>edges := set_discard target_node_id (edges n)\<rparr>"

text \<open>
  \<open>get_text_content\<close> returns \<open>metadata["content"]\<close> as it is stored, which need
  not be a string; otherwise the scalar values joined by spaces.
\<close>

definition get_text_content :: "memory_node \<Rightarrow> pyval" where
  "get_text_content n =
     (case map_of (metadata n) ''content'' of
        Some v \<Rightarrow> v
      | None \<Rightarrow> VStr (join_space (map py_str (filter is_scalar (map snd (metadata n))))))"

subsection \<open>The graph\<close>

text \<open>
  The attributes \<open>corpus\<close>, \<open>id_list\<close> and \<open>bm25\<close> do not exist until
  \<open>bm25_setup\<close> assigns them: \<open>None\<close> stands for an attribute that does not exist.
  The \<open>BM25Okapi\<close> object is given by the corpus that it was built from.
\<close>

record memory_graph =
  nodes :: "(string \<times> memory_node) list"
  content_hash_to_id_map :: "(string \<times> string) list"
  corpus :: "string list list option"
  id_list :: "string list option"
  bm25 :: "string list list option"

definition MemoryGraph :: memory_graph where
  "MemoryGraph = \<lparr> nodes = [], content_hash_to_id_map = [], corpus = None, id_list = None, bm25 = None \<rparr>"

text \<open>
  \<open>_get_hash\<close>. Python's built-in \<open>str\<close> of a whole dict is not code of the
  program; it is the parameter \<open>dict_str\<close>.
\<close>

definition get_hash :: "(pydict \<Rightarrow> string) \<Rightarrow> metadata_arg \<Rightarrow> string" where
  "get_hash dict_str md =
     (case md of
        MStr s \<Rightarrow> s
      | MDict d \<Rightarrow>
          (case map_of d ''content'' of
             Some v \<Rightarrow> py_str v
           | None \<Rightarrow> dict_str d))"

definition add_node ::
  "(pydict \<Rightarrow> string) \<Rightarrow> memory_graph \<Rightarrow> string \<Rightarrow> metadata_arg \<Rightarrow> string \<times> memory_graph" where
  "add_node dict_str g uid md =
     (let content_hash = get_hash dict_str md in
      case map_of (content_hash_to_id_map g) content_hash of
        Some existing \<Rightarrow> (existing, g)
      | None \<Rightarrow>
          (let node = MemoryNode uid md in
           (node_id node,
            g\<lparr> nodes := AList.update (node_id node) node (nodes g),
               content_hash_to_id_map :=
                 AList.update content_hash (node_id node) (content_hash_to_id_map g) \<rparr>)))"

definition add_edge :: "memory_graph \<Rightarrow> string \<Rightarrow> string \<Rightarrow> bool \<times> memory_graph" where
  "add_edge g source_id target_id =
     (case map_of (nodes g) source_id of
        None \<Rightarrow> (False, g)
      | Some src \<Rightarrow>
          (case map_of (nodes g) target_id of
             None \<Rightarrow> (False, g)
           | Some tgt \<Rightarrow>
               (True, g\<lparr> nodes := AList.update source_id (node_add_edge target_id src) (nodes g) \<rparr>)))"

definition get_node :: "memory_graph \<Rightarrow> string \<Rightarrow> memory_node option" where
  "get_node g i = map_of (nodes g) i"

subsection \<open>\<open>write\<close> and \<open>update\<close> of \<open>memory_tools.py\<close>\<close>

text \<open>
  The two tools are named \<open>memory_write\<close> and \<open>memory_update\<close> here, as the
  environment that calls them does, and \<open>search\<close> is \<open>memory_search\<close>.
\<close>

text \<open>
  \<open>if connections:\<close> holds for a list that is neither \<open>None\<close> nor empty, and
  \<open>if target_id:\<close> for a non-empty string. The result of \<open>add_edge\<close> is dropped.
\<close>

definition write_connect :: "string \<Rightarrow> string \<Rightarrow> memory_graph \<Rightarrow> memory_graph" where
  "write_connect source_id target_id g =
     (if target_id \<noteq> [] then snd (add_edge g source_id target_id) else g)"

definition memory_write ::
  "(pydict \<Rightarrow> string) \<Rightarrow> memory_graph \<Rightarrow> string \<Rightarrow> metadata_arg \<Rightarrow> string list option
     \<Rightarrow> string \<times> memory_graph" where
  "memory_write dict_str g uid md connections =
     (let (nid, g1) = add_node dict_str g uid md in
      (nid,
       case connections of
         None \<Rightarrow> g1
       | Some cs \<Rightarrow> if cs \<noteq> [] then fold (write_connect nid) cs g1 else g1))"

definition update_metadata ::
  "(pydict \<Rightarrow> string) \<Rightarrow> string \<Rightarrow> metadata_arg \<Rightarrow> memory_node \<times> memory_graph
     \<Rightarrow> memory_node \<times> memory_graph" where
  "update_metadata dict_str nid md ng =
     (let (node, g) = ng;
          old_hash = get_hash dict_str (MDict (metadata node));
          node' = node\<lparr>metadata := (case md of MStr s \<Rightarrow> [(''content'', VStr s)] | MDict d \<Rightarrow> d)\<rparr>;
          m1 = (if map_of (content_hash_to_id_map g) old_hash \<noteq> None
                then AList.delete old_hash (content_hash_to_id_map g)
                else content_hash_to_id_map g);
          new_hash = get_hash dict_str (MDict (metadata node'))
      in (node', g\<lparr> content_hash_to_id_map := AList.update new_hash nid m1 \<rparr>))"

definition update_connect :: "memory_graph \<Rightarrow> string \<Rightarrow> memory_node \<Rightarrow> memory_node" where
  "update_connect g target_id node =
     (if target_id \<noteq> [] \<and> map_of (nodes g) target_id \<noteq> None
      then node_add_edge target_id node else node)"

text \<open>
  \<open>update\<close> mutates the node object that the graph holds; the model edits a copy
  and stores it back under \<open>node_id\<close> at the end, which is the same graph.
\<close>

definition memory_update ::
  "(pydict \<Rightarrow> string) \<Rightarrow> memory_graph \<Rightarrow> string \<Rightarrow> metadata_arg option
     \<Rightarrow> string list option \<Rightarrow> string list option \<Rightarrow> bool \<times> memory_graph" where
  "memory_update dict_str g nid md add_connections remove_connections =
     (case get_node g nid of
        None \<Rightarrow> (False, g)
      | Some node0 \<Rightarrow>
          (let (node1, g1) = (case md of
                                None \<Rightarrow> (node0, g)
                              | Some m \<Rightarrow> update_metadata dict_str nid m (node0, g));
               node2 = (case add_connections of
                          None \<Rightarrow> node1
                        | Some cs \<Rightarrow> fold (update_connect g1) cs node1);
               node3 = (case remove_connections of
                          None \<Rightarrow> node2
                        | Some cs \<Rightarrow> fold node_remove_edge cs node2)
           in (True, g1\<lparr> nodes := AList.update nid node3 (nodes g1) \<rparr>)))"

subsection \<open>\<open>bfs_exploration\<close>\<close>

text \<open>
  The body of \<open>for neighbor_id in current_node.edges\<close>: an undiscovered neighbour is
  added to \<open>discovered\<close> and appended to the queue one level deeper.
\<close>

fun bfs_visit ::
  "int \<Rightarrow> string \<Rightarrow> string list \<times> (string \<times> int) list \<Rightarrow> string list \<times> (string \<times> int) list" where
  "bfs_visit depth neighbor_id (discovered, queue) =
     (if neighbor_id \<notin> set discovered
      then (set_add neighbor_id discovered, queue @ [(neighbor_id, depth + 1)])
      else (discovered, queue))"

text \<open>All ids that occur as an edge target: the loop can discover nothing else.\<close>

definition edge_targets :: "memory_graph \<Rightarrow> string set" where
  "edge_targets g = (\<Union>p \<in> set (nodes g). set (edges (snd p)))"

text \<open>
  The \<open>while queue:\<close> loop. \<open>queue.pop(0)\<close> takes the head. The loop ends because
  each turn either shortens the queue or discovers an edge target not seen before.
\<close>

function bfs_loop ::
  "memory_graph \<Rightarrow> int \<Rightarrow> string list \<Rightarrow> (string \<times> int) list \<Rightarrow> string list" where
  "bfs_loop g max_depth discovered [] = discovered"
| "bfs_loop g max_depth discovered ((current_id, depth) # queue) =
     (if depth \<ge> max_depth then bfs_loop g max_depth discovered queue
      else case map_of (nodes g) current_id of
             None \<Rightarrow> bfs_loop g max_depth discovered queue
           | Some current_node \<Rightarrow>
               (case fold (bfs_visit depth) (edges current_node) (discovered, queue) of
                  (discovered', queue') \<Rightarrow> bfs_loop g max_depth discovered' queue'))"
  by pat_completeness auto
termination
proof -
  have visit: "\<exists>news. D' = D @ news \<and> set news = set es - set D \<and> length Q' = length Q + length news"
    if "fold (bfs_visit k) es (D, Q) = (D', Q')" for k es D Q D' Q'
    using that
  proof (induction es arbitrary: D Q)
    case Nil
    then show ?case by simp
  next
    case (Cons e es)
    show ?case
    proof (cases "e \<in> set D")
      case True
      with Cons.prems have "fold (bfs_visit k) es (D, Q) = (D', Q')"
        by simp
      from Cons.IH [OF this] True show ?thesis by auto
    next
      case False
      with Cons.prems have "fold (bfs_visit k) es (D @ [e], Q @ [(e, k + 1)]) = (D', Q')"
        by (simp add: set_add_def)
      from Cons.IH [OF this] obtain news where
        n: "D' = (D @ [e]) @ news" "set news = set es - set (D @ [e])"
           "length Q' = length (Q @ [(e, k + 1)]) + length news"
        by blast
      show ?thesis
        by (rule exI [of _ "e # news"]) (use n False in auto)
    qed
  qed
  show ?thesis
  proof (relation "measures [\<lambda>(g, m, d, q). card (edge_targets g - set d),
                              \<lambda>(g, m, d, q). length q]", goal_cases)
    case 1
    show ?case by simp
  next
    case (2 g m d c dep q)
    show ?case by simp
  next
    case (3 g m d c dep q)
    show ?case by simp
  next
    case (4 g m d c dep q n D' Q')
    from visit [OF 4(3) [symmetric]] obtain news where
      n: "D' = d @ news" "set news = set (edges n) - set d" "length Q' = length q + length news"
      by blast
    have fin: "finite (edge_targets g)"
      by (simp add: edge_targets_def)
    have sub: "set (edges n) \<subseteq> edge_targets g"
      using 4(2) by (auto simp: edge_targets_def dest!: map_of_SomeD)
    show ?case
    proof (cases "news = []")
      case True
      with n show ?thesis by simp
    next
      case False
      then obtain e where e: "e \<in> set news" by (cases news) auto
      with n have "e \<in> set (edges n)" "e \<notin> set d" by auto
      with sub have "e \<in> edge_targets g - set d" by auto
      moreover have "e \<notin> edge_targets g - set D'" using e n by simp
      moreover have "edge_targets g - set D' \<subseteq> edge_targets g - set d" using n by auto
      ultimately have "edge_targets g - set D' \<subset> edge_targets g - set d" by blast
      then have "card (edge_targets g - set D') < card (edge_targets g - set d)"
        by (intro psubset_card_mono) (simp_all add: fin)
      then show ?thesis by simp
    qed
  qed
qed

definition bfs_exploration :: "memory_graph \<Rightarrow> string list \<Rightarrow> int \<Rightarrow> string list" where
  "bfs_exploration g start_nodes max_depth =
     bfs_loop g max_depth (remdups start_nodes) (map (\<lambda>node_id. (node_id, 0)) start_nodes)"


text \<open>
  The reference for the traversal: \<open>nbrs g v\<close> are the edge targets of \<open>v\<close>
  (none when \<open>v\<close> is not a node), and \<open>within g S n\<close> the ids at most \<open>n\<close> hops
  from \<open>S\<close>. \<open>bfs_inv\<close> is the invariant of the loop: the queue is \<open>A @ B\<close>, with
  \<open>A\<close> at depth \<open>k\<close> and \<open>B\<close> at depth \<open>k + 1\<close>.
\<close>

definition nbrs :: "memory_graph \<Rightarrow> string \<Rightarrow> string set" where
  "nbrs g v = (case map_of (nodes g) v of None \<Rightarrow> {} | Some n \<Rightarrow> set (edges n))"

primrec within :: "memory_graph \<Rightarrow> string set \<Rightarrow> nat \<Rightarrow> string set" where
  "within g S 0 = S"
| "within g S (Suc n) = within g S n \<union> (\<Union>v \<in> within g S n. nbrs g v)"

definition bfs_inv ::
  "memory_graph \<Rightarrow> string set \<Rightarrow> int \<Rightarrow> nat \<Rightarrow> (string \<times> int) list \<Rightarrow> (string \<times> int) list
     \<Rightarrow> string list \<Rightarrow> bool" where
  "bfs_inv g S m k A B D \<longleftrightarrow>
     (\<forall>p \<in> set A. snd p = int k) \<and> (\<forall>p \<in> set B. snd p = int k + 1) \<and>
     k \<le> nat m \<and> (m \<le> int k \<longrightarrow> B = []) \<and>
     set D = within g S k \<union> fst ` set B \<and>
     fst ` set A \<subseteq> within g S k \<and>
     fst ` set B \<subseteq> within g S (Suc k) \<and>
     (int k < m \<longrightarrow> (\<forall>v \<in> within g S k. v \<in> fst ` set A \<or> nbrs g v \<subseteq> set D))"

subsection \<open>The lexical index\<close>

text \<open>
  \<open>re.compile(r'\w+').findall(text.lower())\<close>, for ASCII text: the letters,
  digits and the underscore are the word characters, and the tokens are the maximal runs
  of them. Characters outside ASCII are taken as separators.
\<close>

definition is_word_char :: "char \<Rightarrow> bool" where
  "is_word_char c =
     (let n = (of_char c :: nat) in
      (48 \<le> n \<and> n \<le> 57) \<or> (65 \<le> n \<and> n \<le> 90) \<or> n = 95 \<or> (97 \<le> n \<and> n \<le> 122))"

definition lower_char :: "char \<Rightarrow> char" where
  "lower_char c =
     (let n = (of_char c :: nat) in if 65 \<le> n \<and> n \<le> 90 then char_of (n + 32) else c)"

fun findall_words :: "string \<Rightarrow> string \<Rightarrow> string list" where
  "findall_words cur [] = (if cur = [] then [] else [cur])"
| "findall_words cur (c # cs) =
     (if is_word_char c then findall_words (cur @ [c]) cs
      else (if cur = [] then [] else [cur]) @ findall_words [] cs)"

definition tokenize :: "string \<Rightarrow> string list" where
  "tokenize s = findall_words [] (map lower_char s)"

text \<open>\<open>.lower()\<close> exists on strings only: any other text content raises.\<close>

fun lower_tokens :: "pyval \<Rightarrow> py_error + string list" where
  "lower_tokens (VStr s) = Inr (tokenize s)"
| "lower_tokens (VInt i) = Inl AttributeError"
| "lower_tokens VNone = Inl AttributeError"

text \<open>A list comprehension whose element expression may raise: the first error wins.\<close>

fun collect :: "('a \<Rightarrow> py_error + 'b) \<Rightarrow> 'a list \<Rightarrow> py_error + 'b list" where
  "collect f [] = Inr []"
| "collect f (x # xs) =
     (case f x of
        Inl e \<Rightarrow> Inl e
      | Inr y \<Rightarrow> (case collect f xs of Inl e \<Rightarrow> Inl e | Inr ys \<Rightarrow> Inr (y # ys)))"

text \<open>
  \<open>bm25_setup\<close>. A call that raises still returns the graph, with what was assigned
  before the exception. When the comprehension raises, nothing is assigned. Otherwise
  \<open>self.corpus\<close> and \<open>self.id_list\<close> are assigned, and then \<open>BM25Okapi(self.corpus)\<close>
  is built: the library's constructor divides by the number of documents and by the number
  of distinct terms, so it raises \<open>ZeroDivisionError\<close> when no document has a token, and
  \<open>self.bm25\<close> then keeps its old value.
\<close>

definition bm25_setup :: "memory_graph \<Rightarrow> py_error option \<times> memory_graph" where
  "bm25_setup g =
     (case collect (\<lambda>p. lower_tokens (get_text_content (snd p))) (nodes g) of
        Inl e \<Rightarrow> (Some e, g)
      | Inr c \<Rightarrow>
          (let g1 = g\<lparr> corpus := Some c, id_list := Some (map fst (nodes g)) \<rparr>
           in if concat c = [] then (Some ZeroDivisionError, g1)
              else (None, g1\<lparr> bm25 := Some c \<rparr>)))"

text \<open>
  The test \<open>not hasattr(self, 'bm25') or len(self.corpus) != len(self.nodes)\<close>; reading
  an attribute that does not exist raises.
\<close>

definition bm25_stale :: "memory_graph \<Rightarrow> py_error + bool" where
  "bm25_stale g =
     (case bm25 g of
        None \<Rightarrow> Inr True
      | Some b \<Rightarrow>
          (case corpus g of
             None \<Rightarrow> Inl AttributeError
           | Some c \<Rightarrow> Inr (length c \<noteq> length (nodes g))))"

text \<open>Python slices \<open>xs[i:]\<close> and \<open>xs[:i]\<close>; a negative bound counts from the end.\<close>

definition py_slice_from :: "int \<Rightarrow> 'a list \<Rightarrow> 'a list" where
  "py_slice_from i xs = (if 0 \<le> i then drop (nat i) xs else drop (length xs - nat (- i)) xs)"

definition py_slice_to :: "int \<Rightarrow> 'a list \<Rightarrow> 'a list" where
  "py_slice_to i xs = (if 0 \<le> i then take (nat i) xs else take (length xs - nat (- i)) xs)"

text \<open>
  \<open>self.bm25.get_scores(query)\<close> belongs to the library \<open>rank_bm25\<close>: the parameter
  \<open>score\<close> gives the score of document \<open>i\<close> of the corpus that the object was built
  from, for the tokenised query, in any linearly ordered type, and the array has one score
  for each document of that corpus.
\<close>

definition get_scores ::
  "(string list list \<Rightarrow> string list \<Rightarrow> nat \<Rightarrow> 's) \<Rightarrow> string list list \<Rightarrow> string list \<Rightarrow> 's list" where
  "get_scores score c q = map (score c q) [0..<length c]"

text \<open>
  \<open>np.argsort\<close> belongs to numpy: it is the parameter \<open>asort\<close> of the search. What
  the properties below use of it is \<open>argsort_ok\<close>: the result lists every index once,
  by ascending score. How it orders equal scores is left open by numpy for long arrays.
\<close>

definition argsort_ok :: "(('s::linorder) list \<Rightarrow> nat list) \<Rightarrow> bool" where
  "argsort_ok asort \<longleftrightarrow>
     (\<forall>s. set (asort s) = {0..<length s} \<and> distinct (asort s)
          \<and> sorted (map (\<lambda>i. s ! i) (asort s)))"

definition bm25_search ::
  "(('s::linorder) list \<Rightarrow> nat list) \<Rightarrow> (string list list \<Rightarrow> string list \<Rightarrow> nat \<Rightarrow> 's)
     \<Rightarrow> memory_graph \<Rightarrow> string \<Rightarrow> int \<Rightarrow> (py_error + string list) \<times> memory_graph" where
  "bm25_search asort score g query top_k =
     (case bm25_stale g of
        Inl e \<Rightarrow> (Inl e, g)
      | Inr stale \<Rightarrow>
          (case (if stale then bm25_setup g else (None, g)) of
             (Some e, g1) \<Rightarrow> (Inl e, g1)
           | (None, g1) \<Rightarrow>
               (case bm25 g1 of
                  None \<Rightarrow> (Inl AttributeError, g1)
                | Some b \<Rightarrow>
                    (let tokenized_query = tokenize query;
                         scores = get_scores score b tokenized_query;
                         top_indices = py_slice_from (- top_k) (asort scores)
                     in case id_list g1 of
                          None \<Rightarrow> (Inl AttributeError, g1)
                        | Some il \<Rightarrow>
                            (case collect (\<lambda>i. if i < length il then Inr (il ! i)
                                                else Inl IndexError) top_indices of
                               Inl e \<Rightarrow> (Inl e, g1)
                             | Inr ids \<Rightarrow> (Inr ids, g1))))))"

subsection \<open>\<open>semantic_search\<close> and \<open>search\<close>\<close>

text \<open>
  The embedding model is outside the program: the parameter \<open>sim\<close> is the cosine
  similarity of the embeddings of the query and of a text, in any linearly ordered type,
  and a failure of the model is not modelled.
  \<open>sorted(results, key=..., reverse=True)\<close> is stable: equal scores keep their order.
\<close>

definition sorted_desc :: "('a \<Rightarrow> 's::linorder) \<Rightarrow> 'a list \<Rightarrow> 'a list" where
  "sorted_desc key xs = rev (sort_key key (rev xs))"

definition semantic_search ::
  "(string \<Rightarrow> pyval \<Rightarrow> 's::linorder) \<Rightarrow> memory_graph \<Rightarrow> string \<Rightarrow> string list \<Rightarrow> int
     \<Rightarrow> py_error + (string \<times> 's) list" where
  "semantic_search sim g query candidate_ids top_k =
     (if candidate_ids = [] then Inr []
      else case collect (\<lambda>node_id. case map_of (nodes g) node_id of
                                     None \<Rightarrow> Inl KeyError
                                   | Some n \<Rightarrow> Inr (node_id, get_text_content n)) candidate_ids of
             Inl e \<Rightarrow> Inl e
           | Inr candidates \<Rightarrow>
               (let results = map (\<lambda>c. (fst c, sim query (snd c))) candidates
                in Inr (py_slice_to top_k (sorted_desc snd results))))"

record 's search_result =
  res_id :: string
  res_metadata :: pydict
  res_score :: 's
  res_connections :: "string list"

definition result_of :: "memory_graph \<Rightarrow> string \<times> 's \<Rightarrow> 's search_result option" where
  "result_of g r =
     (case get_node g (fst r) of
        None \<Rightarrow> None
      | Some node \<Rightarrow>
          Some \<lparr> res_id = fst r, res_metadata = metadata node, res_score = snd r,
                 res_connections = edges node \<rparr>)"

definition memory_search ::
  "(('s::linorder) list \<Rightarrow> nat list) \<Rightarrow> (string list list \<Rightarrow> string list \<Rightarrow> nat \<Rightarrow> 's)
     \<Rightarrow> (string \<Rightarrow> pyval \<Rightarrow> 's) \<Rightarrow> memory_graph \<Rightarrow> string \<Rightarrow> int \<Rightarrow> int \<Rightarrow> int
     \<Rightarrow> (py_error + 's search_result list) \<times> memory_graph" where
  "memory_search asort score sim g query top_k bfs_depth bm25_candidates =
     (if nodes g = [] then (Inr [], g)
      else case bm25_search asort score g query bm25_candidates of
             (Inl e, g1) \<Rightarrow> (Inl e, g1)
           | (Inr initial_candidates, g1) \<Rightarrow>
               (let candidate_set = bfs_exploration g1 initial_candidates bfs_depth
                in case semantic_search sim g1 query candidate_set top_k of
                     Inl e \<Rightarrow> (Inl e, g1)
                   | Inr semantic_results \<Rightarrow>
                       (Inr (List.map_filter (result_of g1) semantic_results), g1)))"

text \<open>
  Graphs on which the lexical search cannot raise: every text content is a string, some
  text has a token, and when an index object exists beside a corpus of the size of the
  graph, the id list is the list of the graph's ids and the object was built from no more
  documents than the graph has nodes. On \<open>search_ready\<close> graphs every edge leads to a
  node as well, and \<open>search\<close> cannot raise.
\<close>

fun is_str :: "pyval \<Rightarrow> bool" where
  "is_str (VStr s) = True"
| "is_str (VInt i) = False"
| "is_str VNone = False"

definition node_tokens :: "memory_node \<Rightarrow> string list" where
  "node_tokens n = (case get_text_content n of VStr s \<Rightarrow> tokenize s | _ \<Rightarrow> [])"

definition lexical_ready :: "memory_graph \<Rightarrow> bool" where
  "lexical_ready g \<longleftrightarrow>
     (\<forall>p \<in> set (nodes g). is_str (get_text_content (snd p))) \<and>
     (\<exists>p \<in> set (nodes g). node_tokens (snd p) \<noteq> []) \<and>
     (case bm25 g of
        None \<Rightarrow> True
      | Some b \<Rightarrow>
          (case corpus g of
             None \<Rightarrow> False
           | Some c \<Rightarrow>
               length c = length (nodes g) \<longrightarrow>
                 id_list g = Some (map fst (nodes g)) \<and> length b \<le> length (nodes g)))"

definition search_ready :: "memory_graph \<Rightarrow> bool" where
  "search_ready g \<longleftrightarrow>
     lexical_ready g \<and>
     (\<forall>p \<in> set (nodes g). \<forall>t \<in> set (edges (snd p)). map_of (nodes g) t \<noteq> None)"

text \<open>
  Stand-ins for the libraries in concrete runs. The score of a document is the number of
  its tokens that occur in the query: \<open>0\<close> for a query that shares no token with the
  corpus, as with \<open>BM25Okapi\<close>. The sort keeps equal scores in index order, as numpy
  does on the two-element arrays of the runs. The similarity is the same count for a text.
\<close>

definition overlap_score :: "string list list \<Rightarrow> string list \<Rightarrow> nat \<Rightarrow> nat" where
  "overlap_score c q i = length (filter (\<lambda>t. t \<in> set q) (c ! i))"

definition stable_argsort :: "('s::linorder) list \<Rightarrow> nat list" where
  "stable_argsort scores = sort_key (\<lambda>i. scores ! i) [0..<length scores]"

definition overlap_similarity :: "string \<Rightarrow> pyval \<Rightarrow> nat" where
  "overlap_similarity q t =
     (case t of VStr s \<Rightarrow> length (filter (\<lambda>w. w \<in> set (tokenize q)) (tokenize s)) | _ \<Rightarrow> 0)"

subsection \<open>A small graph for concrete runs\<close>

text \<open>Two nodes written from strings, \<open>n1\<close> pointing to \<open>n2\<close>, both indexed.\<close>

definition two_nodes :: memory_graph where
  "two_nodes =
     \<lparr> nodes = [(''n1'', \<lparr>node_id = ''n1'', metadata = [(''content'', VStr ''alpha'')], edges = [''n2'']\<rparr>),
                (''n2'', \<lparr>node_id = ''n2'', metadata = [(''content'', VStr ''beta'')], edges = []\<rparr>)],
       content_hash_to_id_map = [(''alpha'', ''n1''), (''beta'', ''n2'')],
       corpus = None, id_list = None, bm25 = None \<rparr>"

subsection \<open>The dedup index and the nodes\<close>

text \<open>The ids of the nodes whose metadata has the dedup key \<open>k\<close>, in graph order.\<close>

definition nodes_with_key :: "(pydict \<Rightarrow> string) \<Rightarrow> memory_graph \<Rightarrow> string \<Rightarrow> string list" where
  "nodes_with_key dict_str g k =
     map fst (filter (\<lambda>p. get_hash dict_str (MDict (metadata (snd p))) = k) (nodes g))"


text \<open>
  The dedup index is exact when node ids are distinct, every node is indexed under the
  key of its metadata, and every entry of the index names a node with that key.
\<close>

definition index_exact :: "(pydict \<Rightarrow> string) \<Rightarrow> memory_graph \<Rightarrow> bool" where
  "index_exact dict_str g \<longleftrightarrow>
     distinct (map fst (nodes g)) \<and>
     (\<forall>p \<in> set (nodes g).
        map_of (content_hash_to_id_map g) (get_hash dict_str (MDict (metadata (snd p)))) = Some (fst p)) \<and>
     (\<forall>e \<in> set (content_hash_to_id_map g).
        (case map_of (nodes g) (snd e) of
           None \<Rightarrow> False
         | Some n \<Rightarrow> get_hash dict_str (MDict (metadata n)) = fst e))"


subsection \<open>Graphs reached by concrete calls\<close>

text \<open>
  A stand-in for Python's \<open>str\<close> of a dict in concrete runs; the runs below write
  strings only, so it is never called.
\<close>

definition repr_stub :: "pydict \<Rightarrow> string" where
  "repr_stub d = ''{}''"

text \<open>\<open>write("A")\<close> then \<open>write("B")\<close> on an empty graph, the ids drawn being \<open>u1\<close>, \<open>u2\<close>.\<close>

definition written_ab :: memory_graph where
  "written_ab =
     snd (memory_write repr_stub
            (snd (memory_write repr_stub MemoryGraph ''u1'' (MStr ''A'') None))
            ''u2'' (MStr ''B'') None)"

text \<open>Then \<open>update(u2, metadata="A")\<close>: two nodes now have the key "A".\<close>

definition collided :: memory_graph where
  "collided = snd (memory_update repr_stub written_ab ''u2'' (Some (MStr ''A'')) None None)"

subsection \<open>Ids that name nodes\<close>

text \<open>
  Every entry of the dedup index names a node, and no node has the empty string as its
  id. Both hold on the empty graph and are kept by \<open>write\<close> (with a non-empty drawn id)
  and by \<open>update\<close>.
\<close>

definition ids_ok :: "memory_graph \<Rightarrow> bool" where
  "ids_ok g \<longleftrightarrow>
     (\<forall>e \<in> set (content_hash_to_id_map g). map_of (nodes g) (snd e) \<noteq> None) \<and>
     [] \<notin> fst ` set (nodes g)"



section \<open>Properties\<close>

subsection \<open>\<open>add_edge\<close>\<close>

lemma set_set_add: "set (set_add x s) = insert x (set s)"
  by (auto simp: set_add_def)

text \<open>
  C8. \<open>add_edge(a, b)\<close> returns false and leaves the graph as it was whenever
  \<open>a\<close> or \<open>b\<close> is not the id of a node of the graph; otherwise it returns true,
  the edge set of \<open>a\<close> becomes the old one with \<open>b\<close> inserted, and every other
  node, the dedup index and the lexical index stay as they were.
\<close>

theorem add_edge_guard:
  "(map_of (nodes g) a = None \<or> map_of (nodes g) b = None
      \<longrightarrow> add_edge g a b = (False, g))
   \<and> (\<forall>src. map_of (nodes g) a = Some src \<and> map_of (nodes g) b \<noteq> None
      \<longrightarrow> fst (add_edge g a b) = True
        \<and> (\<exists>es. map_of (nodes (snd (add_edge g a b))) a = Some (src\<lparr>edges := es\<rparr>)
               \<and> set es = insert b (set (edges src)))
        \<and> (\<forall>c. c \<noteq> a \<longrightarrow> map_of (nodes (snd (add_edge g a b))) c = map_of (nodes g) c)
        \<and> map fst (nodes (snd (add_edge g a b))) = map fst (nodes g)
        \<and> content_hash_to_id_map (snd (add_edge g a b)) = content_hash_to_id_map g
        \<and> corpus (snd (add_edge g a b)) = corpus g
        \<and> id_list (snd (add_edge g a b)) = id_list g
        \<and> bm25 (snd (add_edge g a b)) = bm25 g)"
proof (intro conjI impI allI)
  assume "map_of (nodes g) a = None \<or> map_of (nodes g) b = None"
  then show "add_edge g a b = (False, g)"
    by (auto simp: add_edge_def split: option.splits)
next
  fix src
  assume h: "map_of (nodes g) a = Some src \<and> map_of (nodes g) b \<noteq> None"
  then obtain tgt where t: "map_of (nodes g) b = Some tgt"
    by auto
  have k: "a \<in> set (map fst (nodes g))"
    using h by (metis map_of_eq_None_iff option.distinct(1) set_map)
  have e: "add_edge g a b
      = (True, g\<lparr>nodes := AList.update a (node_add_edge b src) (nodes g)\<rparr>)"
    using h t by (simp add: add_edge_def)
  show "fst (add_edge g a b) = True"
    by (simp add: e)
  show "\<exists>es. map_of (nodes (snd (add_edge g a b))) a = Some (src\<lparr>edges := es\<rparr>)
               \<and> set es = insert b (set (edges src))"
    by (rule exI [of _ "set_add b (edges src)"])
       (simp add: e update_conv' node_add_edge_def set_set_add)
  show "map fst (nodes (snd (add_edge g a b))) = map fst (nodes g)"
    using k by (simp add: e update_keys)
  show "content_hash_to_id_map (snd (add_edge g a b)) = content_hash_to_id_map g"
    by (simp add: e)
  show "corpus (snd (add_edge g a b)) = corpus g"
    by (simp add: e)
  show "id_list (snd (add_edge g a b)) = id_list g"
    by (simp add: e)
  show "bm25 (snd (add_edge g a b)) = bm25 g"
    by (simp add: e)
  fix c
  assume "c \<noteq> a"
  then show "map_of (nodes (snd (add_edge g a b))) c = map_of (nodes g) c"
    by (simp add: e update_conv')
qed

theorem add_edge_guard_witness:
  "add_edge two_nodes ''n2'' ''n9'' = (False, two_nodes)
   \<and> fst (add_edge two_nodes ''n2'' ''n1'') = True
   \<and> (\<exists>es. map_of (nodes (snd (add_edge two_nodes ''n2'' ''n1''))) ''n2''
            = Some \<lparr>node_id = ''n2'', metadata = [(''content'', VStr ''beta'')], edges = es\<rparr>
          \<and> set es = {''n1''})
   \<and> map_of (nodes (snd (add_edge two_nodes ''n2'' ''n1''))) ''n1'' = map_of (nodes two_nodes) ''n1''"
proof -
  have a: "map_of (nodes two_nodes) ''n2'' = Some \<lparr>node_id = ''n2'', metadata = [(''content'', VStr ''beta'')], edges = []\<rparr>"
    by (simp add: two_nodes_def)
  have b: "map_of (nodes two_nodes) ''n1'' \<noteq> None"
    by (simp add: two_nodes_def)
  have c: "map_of (nodes two_nodes) ''n9'' = None"
    by (simp add: two_nodes_def)
  show ?thesis
  using add_edge_guard [of two_nodes "''n2''" "''n9''"]
        add_edge_guard [of two_nodes "''n2''" "''n1''"] a b c
  by simp
qed


subsection \<open>\<open>bfs_exploration\<close> finds the ids within \<open>max_depth\<close> hops\<close>

lemma fold_bfs_visit:
  "fold (bfs_visit k) es (D, Q) = (D', Q') \<Longrightarrow>
     \<exists>news. D' = D @ news \<and> Q' = Q @ map (\<lambda>x. (x, k + 1)) news \<and> set news = set es - set D"
proof (induction es arbitrary: D Q)
  case Nil
  then show ?case by simp
next
  case (Cons e es)
  show ?case
  proof (cases "e \<in> set D")
    case True
    with Cons.prems have "fold (bfs_visit k) es (D, Q) = (D', Q')"
      by simp
    from Cons.IH [OF this] True show ?thesis by auto
  next
    case False
    with Cons.prems have "fold (bfs_visit k) es (D @ [e], Q @ [(e, k + 1)]) = (D', Q')"
      by (simp add: set_add_def)
    from Cons.IH [OF this] obtain news where
      n: "D' = (D @ [e]) @ news" "Q' = (Q @ [(e, k + 1)]) @ map (\<lambda>x. (x, k + 1)) news"
         "set news = set es - set (D @ [e])"
      by blast
    show ?thesis
      by (rule exI [of _ "e # news"]) (use n False in auto)
  qed
qed

lemma bfs_invI:
  assumes "\<forall>p \<in> set A. snd p = int k" "\<forall>p \<in> set B. snd p = int k + 1"
    "k \<le> nat m" "m \<le> int k \<longrightarrow> B = []"
    "set D = within g S k \<union> fst ` set B"
    "fst ` set A \<subseteq> within g S k"
    "fst ` set B \<subseteq> within g S (Suc k)"
    "int k < m \<longrightarrow> (\<forall>v \<in> within g S k. v \<in> fst ` set A \<or> nbrs g v \<subseteq> set D)"
  shows "bfs_inv g S m k A B D"
  unfolding bfs_inv_def using assms by blast

lemma bfs_invD:
  assumes "bfs_inv g S m k A B D"
  shows "\<forall>p \<in> set A. snd p = int k" "\<forall>p \<in> set B. snd p = int k + 1"
    "k \<le> nat m" "m \<le> int k \<longrightarrow> B = []"
    "set D = within g S k \<union> fst ` set B"
    "fst ` set A \<subseteq> within g S k"
    "fst ` set B \<subseteq> within g S (Suc k)"
    "int k < m \<longrightarrow> (\<forall>v \<in> within g S k. v \<in> fst ` set A \<or> nbrs g v \<subseteq> set D)"
  using assms unfolding bfs_inv_def by blast+

lemma within_mono_Suc: "within g S n \<subseteq> within g S (Suc n)"
  by auto

lemma within_mono: "n \<le> n' \<Longrightarrow> within g S n \<subseteq> within g S n'"
  by (induction n') (auto simp: le_Suc_eq)

lemma within_fix:
  assumes "within g S (Suc k) = within g S k"
  shows "within g S (k + j) = within g S k"
proof (induction j)
  case 0
  show ?case by simp
next
  case (Suc j)
  have "within g S (Suc (k + j)) = within g S (k + j) \<union> (\<Union>v \<in> within g S (k + j). nbrs g v)"
    by simp
  also have "\<dots> = within g S k \<union> (\<Union>v \<in> within g S k. nbrs g v)"
    by (simp only: Suc.IH)
  also have "\<dots> = within g S (Suc k)" by simp
  finally show ?case using assms by simp
qed

lemma bfs_inv_shift:
  assumes "bfs_inv g S m k [] B D" "B \<noteq> []"
  shows "bfs_inv g S m (Suc k) B [] D"
proof -
  note d = bfs_invD [OF assms(1)]
  from d(4) assms(2) have lt: "int k < m" by auto
  from d(8) lt have closed: "\<forall>v \<in> within g S k. nbrs g v \<subseteq> set D"
    by simp
  have "within g S (Suc k) \<subseteq> set D"
  proof
    fix x assume "x \<in> within g S (Suc k)"
    then have "x \<in> within g S k \<or> (\<exists>v \<in> within g S k. x \<in> nbrs g v)" by simp
    then show "x \<in> set D" using closed d(5) by blast
  qed
  moreover have "set D \<subseteq> within g S (Suc k)"
    using d(5) d(7) within_mono_Suc [of g S k] by blast
  ultimately have eq: "set D = within g S (Suc k)" by blast
  have c: "\<forall>v \<in> within g S (Suc k). v \<in> fst ` set B \<or> nbrs g v \<subseteq> set D"
  proof
    fix v assume "v \<in> within g S (Suc k)"
    then have "v \<in> within g S k \<or> v \<in> fst ` set B" using eq d(5) by blast
    then show "v \<in> fst ` set B \<or> nbrs g v \<subseteq> set D" using closed by blast
  qed
  show ?thesis
  proof (rule bfs_invI)
    show "\<forall>p\<in>set B. snd p = int (Suc k)" using d(2) by simp
    show "\<forall>p\<in>set []. snd p = int (Suc k) + 1" by simp
    show "Suc k \<le> nat m" using lt by linarith
    show "m \<le> int (Suc k) \<longrightarrow> [] = []" by simp
    show "set D = within g S (Suc k) \<union> fst ` set []" using eq by (simp del: within.simps)
    show "fst ` set B \<subseteq> within g S (Suc k)" by (rule d(7))
    show "fst ` set [] \<subseteq> within g S (Suc (Suc k))" by simp
    show "int (Suc k) < m \<longrightarrow> (\<forall>v\<in>within g S (Suc k). v \<in> fst ` set B \<or> nbrs g v \<subseteq> set D)"
      using c by blast
  qed
qed

lemma bfs_inv_final:
  assumes "bfs_inv g S m k [] [] D"
  shows "set D = within g S (nat m)"
proof -
  note d = bfs_invD [OF assms]
  from d(5) have D: "set D = within g S k" by simp
  from d(3) have le: "k \<le> nat m" .
  show ?thesis
  proof (cases "int k < m")
    case True
    with d(8) have "\<forall>v \<in> within g S k. nbrs g v \<subseteq> set D"
      by simp
    then have "\<forall>v \<in> within g S k. nbrs g v \<subseteq> within g S k"
      unfolding D .
    then have "within g S (Suc k) = within g S k" by auto
    from within_fix [OF this, of "nat m - k"] le have "within g S (nat m) = within g S k"
      by simp
    with D show ?thesis by simp
  next
    case False
    with le have "k = nat m" by linarith
    with D show ?thesis by simp
  qed
qed

lemma bfs_inv_skip:
  assumes "bfs_inv g S m k ((c, dep) # A) B D" "m \<le> dep"
  shows "bfs_inv g S m k A B D"
proof -
  note d = bfs_invD [OF assms(1)]
  from d(1) have dep: "dep = int k" by simp
  show ?thesis
  proof (rule bfs_invI)
    show "\<forall>p\<in>set A. snd p = int k" using d(1) by simp
    show "\<forall>p\<in>set B. snd p = int k + 1" by (rule d(2))
    show "k \<le> nat m" by (rule d(3))
    show "m \<le> int k \<longrightarrow> B = []" by (rule d(4))
    show "set D = within g S k \<union> fst ` set B" by (rule d(5))
    show "fst ` set A \<subseteq> within g S k" using d(6) by simp
    show "fst ` set B \<subseteq> within g S (Suc k)" by (rule d(7))
    show "int k < m \<longrightarrow> (\<forall>v\<in>within g S k. v \<in> fst ` set A \<or> nbrs g v \<subseteq> set D)"
      using assms(2) dep by simp
  qed
qed

lemma bfs_inv_absent:
  assumes "bfs_inv g S m k ((c, dep) # A) B D" "map_of (nodes g) c = None"
  shows "bfs_inv g S m k A B D"
proof -
  note d = bfs_invD [OF assms(1)]
  have nb: "nbrs g c = {}" using assms(2) by (simp add: nbrs_def)
  show ?thesis
  proof (rule bfs_invI)
    show "\<forall>p\<in>set A. snd p = int k" using d(1) by simp
    show "\<forall>p\<in>set B. snd p = int k + 1" by (rule d(2))
    show "k \<le> nat m" by (rule d(3))
    show "m \<le> int k \<longrightarrow> B = []" by (rule d(4))
    show "set D = within g S k \<union> fst ` set B" by (rule d(5))
    show "fst ` set A \<subseteq> within g S k" using d(6) by simp
    show "fst ` set B \<subseteq> within g S (Suc k)" by (rule d(7))
    show "int k < m \<longrightarrow> (\<forall>v\<in>within g S k. v \<in> fst ` set A \<or> nbrs g v \<subseteq> set D)"
    proof (intro impI ballI)
      fix v assume lt: "int k < m" and v: "v \<in> within g S k"
      from d(8) lt v have "v \<in> fst ` set ((c, dep) # A) \<or> nbrs g v \<subseteq> set D" by blast
      then have "v = c \<or> v \<in> fst ` set A \<or> nbrs g v \<subseteq> set D" by simp
      then show "v \<in> fst ` set A \<or> nbrs g v \<subseteq> set D" using nb by auto
    qed
  qed
qed

lemma bfs_inv_expand:
  assumes "bfs_inv g S m k ((c, dep) # A) B D" "\<not> m \<le> dep" "map_of (nodes g) c = Some n"
    "set news = set (edges n) - set D"
  shows "bfs_inv g S m k A (B @ map (\<lambda>x. (x, dep + 1)) news) (D @ news)"
proof -
  note d = bfs_invD [OF assms(1)]
  have nb: "nbrs g c = set (edges n)" using assms(3) by (simp add: nbrs_def)
  from d(1) have dep: "dep = int k" by simp
  from d(6) have c: "c \<in> within g S k" by simp
  have "set news \<subseteq> nbrs g c" using assms(4) nb by blast
  then have sub: "set news \<subseteq> within g S (Suc k)"
    using c by auto
  have img: "fst ` set (map (\<lambda>x. (x, dep + 1)) news) = set news"
    by (simp add: image_image)
  have D': "set (D @ news) = set D \<union> set (edges n)"
    using assms(4) by auto
  have D'': "set (D @ news) = set D \<union> set news"
    by simp
  show ?thesis
  proof (rule bfs_invI)
    show "\<forall>p\<in>set A. snd p = int k" using d(1) by simp
    show "\<forall>p\<in>set (B @ map (\<lambda>x. (x, dep + 1)) news). snd p = int k + 1"
      using d(2) dep by auto
    show "k \<le> nat m" by (rule d(3))
    show "m \<le> int k \<longrightarrow> B @ map (\<lambda>x. (x, dep + 1)) news = []"
      using assms(2) dep by simp
    show "set (D @ news) = within g S k \<union> fst ` set (B @ map (\<lambda>x. (x, dep + 1)) news)"
      unfolding D'' d(5) set_append image_Un img by blast
    show "fst ` set A \<subseteq> within g S k" using d(6) by simp
    show "fst ` set (B @ map (\<lambda>x. (x, dep + 1)) news) \<subseteq> within g S (Suc k)"
      unfolding set_append image_Un img using d(7) sub by blast
    show "int k < m \<longrightarrow> (\<forall>v\<in>within g S k. v \<in> fst ` set A \<or> nbrs g v \<subseteq> set (D @ news))"
    proof (intro impI ballI)
      fix v assume lt: "int k < m" and v: "v \<in> within g S k"
      show "v \<in> fst ` set A \<or> nbrs g v \<subseteq> set (D @ news)"
      proof (cases "v = c")
        case True
        then show ?thesis using nb D' by blast
      next
        case False
        from d(8) lt v have "v \<in> fst ` set ((c, dep) # A) \<or> nbrs g v \<subseteq> set D"
          by blast
        then have "v = c \<or> v \<in> fst ` set A \<or> nbrs g v \<subseteq> set D" by simp
        with False show ?thesis unfolding D'' by blast
      qed
    qed
  qed
qed

lemma bfs_loop_within:
  "bfs_inv g S m k A B D \<Longrightarrow> Q = A @ B \<Longrightarrow> set (bfs_loop g m D Q) = within g S (nat m)"
proof (induction g m D Q arbitrary: k A B rule: bfs_loop.induct)
  case (1 g m D)
  then show ?case using bfs_inv_final by simp
next
  case (2 g m D c dep Q)
  obtain k' A' B' where inv: "bfs_inv g S m k' ((c, dep) # A') B' D" and Q: "Q = A' @ B'"
  proof (cases A)
    case Nil
    with "2.prems" have B: "B = (c, dep) # Q" by simp
    from "2.prems"(1) Nil have "bfs_inv g S m k [] B D" by simp
    from bfs_inv_shift [OF this] B have "bfs_inv g S m (Suc k) ((c, dep) # Q) [] D"
      by simp
    then show ?thesis using that [of "Suc k" Q "[]"] by simp
  next
    case (Cons a A'')
    with "2.prems" show ?thesis using that [of k A'' B] by simp
  qed
  show ?case
  proof (cases "m \<le> dep")
    case True
    from "2.IH"(1) [OF True bfs_inv_skip [OF inv True] Q] True show ?thesis by simp
  next
    case False
    show ?thesis
    proof (cases "map_of (nodes g) c")
      case None
      from "2.IH"(2) [OF False None bfs_inv_absent [OF inv None] Q] False None
      show ?thesis by simp
    next
      case (Some n)
      obtain D' Q' where f: "fold (bfs_visit dep) (edges n) (D, Q) = (D', Q')"
        by (cases "fold (bfs_visit dep) (edges n) (D, Q)") 
      from fold_bfs_visit [OF f] obtain news where
        n: "D' = D @ news" "Q' = Q @ map (\<lambda>x. (x, dep + 1)) news" "set news = set (edges n) - set D"
        by blast
      have inv': "bfs_inv g S m k' A' (B' @ map (\<lambda>x. (x, dep + 1)) news) D'"
        using bfs_inv_expand [OF inv False Some n(3)] n(1) by simp
      have "Q' = A' @ (B' @ map (\<lambda>x. (x, dep + 1)) news)" using n(2) Q by simp
      from "2.IH"(3) [OF False Some f [symmetric] inv' this] False Some f
      show ?thesis by simp
    qed
  qed
qed

lemma bfs_exploration_within:
  "set (bfs_exploration g start_nodes max_depth) = within g (set start_nodes) (nat max_depth)"
proof -
  have "bfs_inv g (set start_nodes) max_depth 0 (map (\<lambda>node_id. (node_id, 0)) start_nodes) []
          (remdups start_nodes)"
    unfolding bfs_inv_def by (auto simp: image_iff)
  from bfs_loop_within [OF this] show ?thesis
    by (simp add: bfs_exploration_def)
qed

lemma within_seeds: "S \<subseteq> within g S n"
  by (induction n) auto

lemma within_Un: "within g (A \<union> B) n = within g A n \<union> within g B n"
  by (induction n) auto

lemma within_isolated:
  assumes "\<forall>v \<in> B. nbrs g v = {}"
  shows "within g B n = B"
  using assms by (induction n) auto

text \<open>
  C3. For every graph, seed list and depth \<open>d\<close> (negative ones too), every id found
  with depth \<open>d\<close> is found with depth \<open>d + 1\<close>, and depth \<open>0\<close> finds exactly the
  seeds.
\<close>

theorem bfs_depth_bound:
  "set (bfs_exploration g seeds d) \<subseteq> set (bfs_exploration g seeds (d + 1))
   \<and> set (bfs_exploration g seeds 0) = set seeds"
proof
  have "nat d \<le> nat (d + 1)" by simp
  from within_mono [OF this]
  show "set (bfs_exploration g seeds d) \<subseteq> set (bfs_exploration g seeds (d + 1))"
    by (simp only: bfs_exploration_within)
  show "set (bfs_exploration g seeds 0) = set seeds"
    by (simp add: bfs_exploration_within)
qed

theorem bfs_depth_bound_witness:
  "bfs_exploration two_nodes [''n1''] 0 = [''n1'']
   \<and> bfs_exploration two_nodes [''n1''] 1 = [''n1'', ''n2'']
   \<and> set (bfs_exploration two_nodes [''n1''] 0) \<subseteq> set (bfs_exploration two_nodes [''n1''] (0 + 1))
   \<and> set (bfs_exploration two_nodes [''n1''] 0) = set [''n1'']"
  using bfs_depth_bound [of two_nodes "[''n1'']" 0]
  by (simp add: bfs_exploration_def two_nodes_def set_add_def)

text \<open>
  C10. Every seed is in the result, whether or not it is a node of the graph, and the
  seeds that are not nodes add nothing else: the result is the seeds together with
  what the traversal finds from the seeds that are nodes.
\<close>

theorem bfs_seed_retention:
  "set seeds \<subseteq> set (bfs_exploration g seeds d)
   \<and> set (bfs_exploration g seeds d)
       = set seeds \<union> set (bfs_exploration g (filter (\<lambda>s. map_of (nodes g) s \<noteq> None) seeds) d)"
proof -
  let ?E = "{s \<in> set seeds. map_of (nodes g) s \<noteq> None}"
  let ?N = "{s \<in> set seeds. map_of (nodes g) s = None}"
  have split: "set seeds = ?E \<union> ?N" by auto
  have "\<forall>v \<in> ?N. nbrs g v = {}" by (simp add: nbrs_def)
  then have iso: "within g ?N (nat d) = ?N" by (rule within_isolated)
  have "within g (set seeds) (nat d) = within g ?E (nat d) \<union> ?N"
    using within_Un [of g ?E ?N "nat d"] split iso by simp
  moreover have "?E \<subseteq> within g ?E (nat d)" by (rule within_seeds)
  ultimately have "within g (set seeds) (nat d) = set seeds \<union> within g ?E (nat d)"
    by auto
  moreover have "set seeds \<subseteq> within g (set seeds) (nat d)" by (rule within_seeds)
  ultimately show ?thesis
    by (simp add: bfs_exploration_within)
qed

theorem bfs_seed_retention_witness:
  "bfs_exploration two_nodes [''zz'', ''n1''] 1 = [''zz'', ''n1'', ''n2'']
   \<and> bfs_exploration two_nodes [''n1''] 1 = [''n1'', ''n2'']
   \<and> set [''zz'', ''n1''] \<subseteq> set (bfs_exploration two_nodes [''zz'', ''n1''] 1)
   \<and> set (bfs_exploration two_nodes [''zz'', ''n1''] 1)
       = set [''zz'', ''n1'']
         \<union> set (bfs_exploration two_nodes
                  (filter (\<lambda>s. map_of (nodes two_nodes) s \<noteq> None) [''zz'', ''n1'']) 1)"
  using bfs_seed_retention [of "[''zz'', ''n1'']" two_nodes 1]
  by (simp add: bfs_exploration_def two_nodes_def set_add_def)

subsection \<open>Writing twice\<close>

lemma written_ab_eq:
  "written_ab =
     \<lparr>nodes = [(''u1'', \<lparr>node_id = ''u1'', metadata = [(''content'', VStr ''A'')], edges = []\<rparr>),
               (''u2'', \<lparr>node_id = ''u2'', metadata = [(''content'', VStr ''B'')], edges = []\<rparr>)],
      content_hash_to_id_map = [(''A'', ''u1''), (''B'', ''u2'')], corpus = None, id_list = None, bm25 = None\<rparr>"
  by (simp add: written_ab_def memory_write_def add_node_def MemoryGraph_def MemoryNode_def
      get_hash_def Let_def)

lemma collided_eq:
  "collided =
     \<lparr>nodes = [(''u1'', \<lparr>node_id = ''u1'', metadata = [(''content'', VStr ''A'')], edges = []\<rparr>),
               (''u2'', \<lparr>node_id = ''u2'', metadata = [(''content'', VStr ''A'')], edges = []\<rparr>)],
      content_hash_to_id_map = [(''A'', ''u2'')], corpus = None, id_list = None, bm25 = None\<rparr>"
  by (simp add: collided_def written_ab_eq memory_update_def update_metadata_def get_node_def
      get_hash_def AList.delete_eq Let_def)

lemma get_hash_MemoryNode:
  "get_hash ds (MDict (metadata (MemoryNode uid md))) = get_hash ds md"
  by (cases md) (simp_all add: MemoryNode_def get_hash_def)

lemma add_node_present:
  "map_of (content_hash_to_id_map g) (get_hash ds md) = Some i \<Longrightarrow> add_node ds g uid md = (i, g)"
  by (simp add: add_node_def)

lemma add_node_absent:
  "map_of (content_hash_to_id_map g) (get_hash ds md) = None \<Longrightarrow>
   add_node ds g uid md =
     (uid, g\<lparr> nodes := AList.update uid (MemoryNode uid md) (nodes g),
              content_hash_to_id_map := AList.update (get_hash ds md) uid (content_hash_to_id_map g) \<rparr>)"
  by (simp add: add_node_def MemoryNode_def)

lemma add_node_indexed:
  "map_of (content_hash_to_id_map (snd (add_node ds g uid md))) (get_hash ds md)
     = Some (fst (add_node ds g uid md))"
  by (cases "map_of (content_hash_to_id_map g) (get_hash ds md)")
     (simp_all add: add_node_present add_node_absent update_conv')

lemma write_twice_same:
  "fst (memory_write ds (snd (memory_write ds g u1 md None)) u2 md None) = fst (memory_write ds g u1 md None)
   \<and> snd (memory_write ds (snd (memory_write ds g u1 md None)) u2 md None) = snd (memory_write ds g u1 md None)"
proof -
  obtain i g1 where a: "add_node ds g u1 md = (i, g1)" by (cases "add_node ds g u1 md")
  from add_node_indexed [of ds g u1 md] a
  have "map_of (content_hash_to_id_map g1) (get_hash ds md) = Some i" by simp
  from add_node_present [OF this] a show ?thesis
    by (simp add: memory_write_def)
qed

lemma filter_update_fresh:
  assumes "\<forall>p \<in> set al. \<not> P p" "P (k, v)"
  shows "filter P (AList.update k v al) = [(k, v)]"
  using assms by (induction al) auto

lemma distinct_singleton:
  assumes "distinct l" "set l = {i}"
  shows "l = [i]"
proof (cases l)
  case Nil
  with assms show ?thesis by simp
next
  case (Cons x xs)
  with assms have "x = i" "set xs \<subseteq> {i}" "i \<notin> set xs" by auto
  then have "xs = []" by (cases xs) auto
  with Cons \<open>x = i\<close> show ?thesis by simp
qed

lemma nodes_with_key_unique:
  assumes "index_exact ds g" "map_of (content_hash_to_id_map g) k = Some i"
  shows "nodes_with_key ds g k = [i]"
proof -
  let ?P = "\<lambda>p. get_hash ds (MDict (metadata (snd p))) = k"
  from assms(1) have d: "distinct (map fst (nodes g))" by (simp add: index_exact_def)
  have own: "\<forall>p \<in> set (nodes g). ?P p \<longrightarrow> fst p = i"
    using assms by (auto simp: index_exact_def)
  have "(k, i) \<in> set (content_hash_to_id_map g)" using assms(2) by (rule map_of_SomeD)
  with assms(1) obtain n where n: "map_of (nodes g) i = Some n"
    and kn: "get_hash ds (MDict (metadata n)) = k"
    by (fastforce simp: index_exact_def split: option.splits)
  from n have mem: "(i, n) \<in> set (nodes g)" by (rule map_of_SomeD)
  have "i \<in> set (map fst (filter ?P (nodes g)))"
    using mem kn by force
  moreover have "set (map fst (filter ?P (nodes g))) \<subseteq> {i}" using own by auto
  ultimately have eq: "set (map fst (filter ?P (nodes g))) = {i}" by auto
  have dist: "distinct (map fst (filter ?P (nodes g)))" using d by (rule distinct_map_filter)
  from distinct_singleton [OF dist eq] show ?thesis
    by (simp add: nodes_with_key_def)
qed

lemma nodes_with_key_none:
  "nodes_with_key ds g k = [] \<Longrightarrow> \<forall>p \<in> set (nodes g). get_hash ds (MDict (metadata (snd p))) \<noteq> k"
  by (auto simp: nodes_with_key_def filter_empty_conv)

text \<open>
  C1 (as amended). Writing the same metadata twice returns the same id both times and the
  second call changes nothing; when, before the calls, the nodes with the key of the
  metadata are exactly the node that the dedup index maps the key to (no node when the key
  is not indexed), exactly one node has that key afterwards, the one returned.
\<close>

theorem idempotent_write:
  "fst (memory_write ds (snd (memory_write ds g u1 md None)) u2 md None)
     = fst (memory_write ds g u1 md None)
   \<and> snd (memory_write ds (snd (memory_write ds g u1 md None)) u2 md None)
       = snd (memory_write ds g u1 md None)
   \<and> (nodes_with_key ds g (get_hash ds md)
         = (case map_of (content_hash_to_id_map g) (get_hash ds md) of
              None \<Rightarrow> [] | Some i \<Rightarrow> [i]) \<longrightarrow>
        nodes_with_key ds (snd (memory_write ds (snd (memory_write ds g u1 md None)) u2 md None))
          (get_hash ds md) = [fst (memory_write ds g u1 md None)])"
proof (intro conjI impI)
  show "fst (memory_write ds (snd (memory_write ds g u1 md None)) u2 md None)
     = fst (memory_write ds g u1 md None)"
    using write_twice_same by blast
  show same: "snd (memory_write ds (snd (memory_write ds g u1 md None)) u2 md None)
       = snd (memory_write ds g u1 md None)"
    using write_twice_same by blast
  assume ex: "nodes_with_key ds g (get_hash ds md)
         = (case map_of (content_hash_to_id_map g) (get_hash ds md) of
              None \<Rightarrow> [] | Some i \<Rightarrow> [i])"
  have "nodes_with_key ds (snd (memory_write ds g u1 md None)) (get_hash ds md)
          = [fst (memory_write ds g u1 md None)]"
  proof (cases "map_of (content_hash_to_id_map g) (get_hash ds md)")
    case None
    let ?P = "\<lambda>p. get_hash ds (MDict (metadata (snd p))) = get_hash ds md"
    from ex None have "nodes_with_key ds g (get_hash ds md) = []" by simp
    from nodes_with_key_none [OF this] have none: "\<forall>p \<in> set (nodes g). \<not> ?P p" .
    have "?P (u1, MemoryNode u1 md)" by (simp add: get_hash_MemoryNode)
    from filter_update_fresh [of "nodes g" ?P, OF none this] show ?thesis
      by (simp add: memory_write_def add_node_absent [OF None] nodes_with_key_def)
  next
    case (Some i)
    with ex show ?thesis
      by (simp add: memory_write_def add_node_present [OF Some])
  qed
  then show "nodes_with_key ds (snd (memory_write ds (snd (memory_write ds g u1 md None)) u2 md None))
          (get_hash ds md) = [fst (memory_write ds g u1 md None)]"
    by (simp only: same)
qed

theorem idempotent_write_witness:
  "nodes_with_key repr_stub collided (get_hash repr_stub (MStr ''C''))
     = (case map_of (content_hash_to_id_map collided) (get_hash repr_stub (MStr ''C'')) of
          None \<Rightarrow> [] | Some i \<Rightarrow> [i])
   \<and> fst (memory_write repr_stub collided ''u3'' (MStr ''C'') None) = ''u3''
   \<and> fst (memory_write repr_stub (snd (memory_write repr_stub collided ''u3'' (MStr ''C'') None))
            ''u4'' (MStr ''C'') None) = ''u3''
   \<and> nodes_with_key repr_stub
        (snd (memory_write repr_stub (snd (memory_write repr_stub collided ''u3'' (MStr ''C'') None))
               ''u4'' (MStr ''C'') None)) (get_hash repr_stub (MStr ''C'')) = [''u3'']"
proof -
  have h: "nodes_with_key repr_stub collided (get_hash repr_stub (MStr ''C''))
     = (case map_of (content_hash_to_id_map collided) (get_hash repr_stub (MStr ''C'')) of
          None \<Rightarrow> [] | Some i \<Rightarrow> [i])"
    by (simp add: collided_eq nodes_with_key_def get_hash_def)
  have f: "fst (memory_write repr_stub collided ''u3'' (MStr ''C'') None) = ''u3''"
    by (simp add: collided_eq memory_write_def add_node_def MemoryNode_def get_hash_def Let_def)
  show ?thesis
    using idempotent_write [of repr_stub collided "''u3''" "MStr ''C''" "''u4''"] h f
    by auto
qed

text \<open>
  C1 (as stated) fails after an update has made two nodes share a key: \<open>collided\<close> is
  reached by writing "A" and "B" and updating the second node to "A". Writing "A" twice then
  returns \<open>u2\<close> both times, and two nodes carry the key "A".
\<close>

theorem idempotent_write_counterexample:
  "fst (memory_write repr_stub collided ''u3'' (MStr ''A'') None) = ''u2''
   \<and> fst (memory_write repr_stub (snd (memory_write repr_stub collided ''u3'' (MStr ''A'') None))
            ''u4'' (MStr ''A'') None) = ''u2''
   \<and> nodes_with_key repr_stub
        (snd (memory_write repr_stub (snd (memory_write repr_stub collided ''u3'' (MStr ''A'') None))
               ''u4'' (MStr ''A'') None)) (get_hash repr_stub (MStr ''A'')) = [''u1'', ''u2'']"
proof -
  note c = collided_eq
  have w: "memory_write repr_stub collided u (MStr ''A'') None = (''u2'', collided)" for u
    by (simp add: c memory_write_def add_node_def get_hash_def Let_def)
  show ?thesis
    by (simp add: w) (simp add: c nodes_with_key_def get_hash_def)
qed

subsection \<open>A write whose key is already indexed\<close>

lemma add_edge_Some:
  "map_of (nodes g) a = Some src \<Longrightarrow> map_of (nodes g) b = Some tgt \<Longrightarrow>
   add_edge g a b = (True, g\<lparr>nodes := AList.update a (node_add_edge b src) (nodes g)\<rparr>)"
  by (simp add: add_edge_def)

lemma add_edge_None:
  "map_of (nodes g) a = None \<or> map_of (nodes g) b = None \<Longrightarrow> add_edge g a b = (False, g)"
  by (auto simp: add_edge_def split: option.splits)

lemma write_connect_eq:
  assumes "map_of (nodes g) i = Some n"
  shows "write_connect i t g =
     (if t \<noteq> [] \<and> map_of (nodes g) t \<noteq> None
      then g\<lparr>nodes := AList.update i (n\<lparr>edges := set_add t (edges n)\<rparr>) (nodes g)\<rparr> else g)"
proof (cases "map_of (nodes g) t")
  case None
  then show ?thesis by (simp add: write_connect_def add_edge_None)
next
  case (Some tgt)
  from add_edge_Some [OF assms Some] Some show ?thesis
    by (simp add: write_connect_def node_add_edge_def)
qed

lemma fold_write_connect:
  assumes "map_of (nodes g) i = Some n"
  shows "\<exists>es. fold (write_connect i) cs g = g\<lparr>nodes := AList.update i (n\<lparr>edges := es\<rparr>) (nodes g)\<rparr>
           \<and> set es = set (edges n) \<union> {t \<in> set cs. t \<noteq> [] \<and> map_of (nodes g) t \<noteq> None}"
  using assms
proof (induction cs arbitrary: g n)
  case Nil
  have "AList.update i n (nodes g) = nodes g"
    using Nil by (rule update_triv)
  then have "fold (write_connect i) [] g = g\<lparr>nodes := AList.update i (n\<lparr>edges := edges n\<rparr>) (nodes g)\<rparr>"
    by simp
  moreover have "set (edges n) = set (edges n) \<union> {t \<in> set []. t \<noteq> [] \<and> map_of (nodes g) t \<noteq> None}"
    by simp
  ultimately show ?case by (intro exI [of _ "edges n"] conjI)
next
  case (Cons t cs)
  show ?case
  proof (cases "t \<noteq> [] \<and> map_of (nodes g) t \<noteq> None")
    case False
    have w: "write_connect i t g = g"
      using False by (simp only: write_connect_eq [OF Cons.prems] if_False simp_thms)
    from Cons.IH [OF Cons.prems] obtain es where
      es: "fold (write_connect i) cs g = g\<lparr>nodes := AList.update i (n\<lparr>edges := es\<rparr>) (nodes g)\<rparr>"
          "set es = set (edges n) \<union> {t \<in> set cs. t \<noteq> [] \<and> map_of (nodes g) t \<noteq> None}"
      by (elim exE conjE)
    have f: "fold (write_connect i) (t # cs) g = fold (write_connect i) cs g"
      by (simp add: w)
    have s: "{t' \<in> set (t # cs). t' \<noteq> [] \<and> map_of (nodes g) t' \<noteq> None}
             = {t' \<in> set cs. t' \<noteq> [] \<and> map_of (nodes g) t' \<noteq> None}"
      using False by auto
    show ?thesis
      unfolding f s using es by (intro exI [of _ es] conjI)
  next
    case True
    let ?n1 = "n\<lparr>edges := set_add t (edges n)\<rparr>"
    let ?g1 = "g\<lparr>nodes := AList.update i ?n1 (nodes g)\<rparr>"
    have w: "write_connect i t g = ?g1"
      using True by (simp only: write_connect_eq [OF Cons.prems] if_True simp_thms)
    have n1: "map_of (nodes ?g1) i = Some ?n1" by (simp add: update_conv')
    have same: "map_of (nodes ?g1) t' \<noteq> None \<longleftrightarrow> map_of (nodes g) t' \<noteq> None" for t'
      using Cons.prems by (cases "t' = i") (simp_all add: update_conv')
    from Cons.IH [OF n1] obtain es where
      es: "fold (write_connect i) cs ?g1 = ?g1\<lparr>nodes := AList.update i (?n1\<lparr>edges := es\<rparr>) (nodes ?g1)\<rparr>"
          "set es = set (edges ?n1) \<union> {t \<in> set cs. t \<noteq> [] \<and> map_of (nodes ?g1) t \<noteq> None}"
      by (elim exE conjE)
    have f: "fold (write_connect i) (t # cs) g = fold (write_connect i) cs ?g1"
      by (simp only: fold_simps w)
    have r: "?g1\<lparr>nodes := AList.update i (?n1\<lparr>edges := es\<rparr>) (nodes ?g1)\<rparr>
             = g\<lparr>nodes := AList.update i (n\<lparr>edges := es\<rparr>) (nodes g)\<rparr>"
      by simp
    have s: "{t' \<in> set (t # cs). t' \<noteq> [] \<and> map_of (nodes g) t' \<noteq> None}
             = insert t {t' \<in> set cs. t' \<noteq> [] \<and> map_of (nodes g) t' \<noteq> None}"
      using True by auto
    have e1: "set (edges ?n1) = insert t (set (edges n))"
      by (simp add: set_set_add)
    have "set es = set (edges n) \<union> {t' \<in> set (t # cs). t' \<noteq> [] \<and> map_of (nodes g) t' \<noteq> None}"
      unfolding es(2) e1 s same by simp
    moreover have "fold (write_connect i) (t # cs) g = g\<lparr>nodes := AList.update i (n\<lparr>edges := es\<rparr>) (nodes g)\<rparr>"
      unfolding f es(1) r ..
    ultimately show ?thesis by (intro exI [of _ es] conjI)
  qed
qed

text \<open>
  C2 (as amended). When the key of the metadata already maps to a node of the graph,
  \<open>write\<close> creates no node and returns the mapped id, and the only change to the
  graph is in that node's edge set, which gains every non-empty id of \<open>connections\<close>
  that names a node; the connections are not ignored.
\<close>

theorem duplicate_write_effect:
  assumes "map_of (content_hash_to_id_map g) (get_hash ds md) = Some i"
    and "map_of (nodes g) i = Some n"
  shows "fst (memory_write ds g uid md connections) = i
    \<and> (\<exists>es. snd (memory_write ds g uid md connections)
                = g\<lparr>nodes := AList.update i (n\<lparr>edges := es\<rparr>) (nodes g)\<rparr>
             \<and> set es = set (edges n)
                  \<union> {t \<in> set (case connections of None \<Rightarrow> [] | Some cs \<Rightarrow> cs).
                       t \<noteq> [] \<and> map_of (nodes g) t \<noteq> None})
    \<and> map fst (nodes (snd (memory_write ds g uid md connections))) = map fst (nodes g)
    \<and> content_hash_to_id_map (snd (memory_write ds g uid md connections)) = content_hash_to_id_map g"
proof -
  let ?cs = "case connections of None \<Rightarrow> [] | Some cs \<Rightarrow> cs"
  have w: "memory_write ds g uid md connections = (i, fold (write_connect i) ?cs g)"
    using add_node_present [OF assms(1)]
    by (auto simp: memory_write_def split: option.splits)
  from fold_write_connect [OF assms(2), of ?cs] obtain es where
    es: "fold (write_connect i) ?cs g = g\<lparr>nodes := AList.update i (n\<lparr>edges := es\<rparr>) (nodes g)\<rparr>"
        "set es = set (edges n) \<union> {t \<in> set ?cs. t \<noteq> [] \<and> map_of (nodes g) t \<noteq> None}"
    by blast
  have k: "i \<in> set (map fst (nodes g))"
    using assms(2) by (metis map_of_eq_None_iff option.distinct(1) set_map)
  have keys: "map fst (nodes (fold (write_connect i) ?cs g)) = map fst (nodes g)"
    using k by (simp add: es(1) update_keys)
  have idx: "content_hash_to_id_map (fold (write_connect i) ?cs g) = content_hash_to_id_map g"
    by (simp add: es(1))
  show ?thesis
    using es keys idx unfolding w by auto
qed

theorem duplicate_write_effect_witness:
  "map_of (content_hash_to_id_map written_ab) (get_hash repr_stub (MStr ''B'')) = Some ''u2''
   \<and> fst (memory_write repr_stub written_ab ''u3'' (MStr ''B'') (Some [''u1'', '''', ''u9''])) = ''u2''
   \<and> (\<exists>es. snd (memory_write repr_stub written_ab ''u3'' (MStr ''B'') (Some [''u1'', '''', ''u9'']))
              = written_ab\<lparr>nodes := AList.update ''u2''
                   \<lparr>node_id = ''u2'', metadata = [(''content'', VStr ''B'')], edges = es\<rparr>
                   (nodes written_ab)\<rparr>
           \<and> set es = {''u1''})"
proof -
  have a: "map_of (content_hash_to_id_map written_ab) (get_hash repr_stub (MStr ''B'')) = Some ''u2''"
    by (simp add: written_ab_eq get_hash_def)
  have b: "map_of (nodes written_ab) ''u2''
             = Some \<lparr>node_id = ''u2'', metadata = [(''content'', VStr ''B'')], edges = []\<rparr>"
    by (simp add: written_ab_eq)
  have c: "{t \<in> set [''u1'', '''', ''u9'']. t \<noteq> [] \<and> map_of (nodes written_ab) t \<noteq> None} = {''u1''}"
    by (auto simp: written_ab_eq)
  show ?thesis
    using duplicate_write_effect [OF a b, of "''u3''" "Some [''u1'', '''', ''u9'']"] a c
    by simp
qed

text \<open>
  C2 (as stated) fails: \<open>write("B", connections=[u1])\<close> on a graph that already holds
  "B" as node \<open>u2\<close> without edges returns \<open>u2\<close> and leaves it with the edge to \<open>u1\<close>.
\<close>

theorem duplicate_write_counterexample:
  "map_of (content_hash_to_id_map written_ab) (get_hash repr_stub (MStr ''B'')) = Some ''u2''
   \<and> map_option edges (map_of (nodes written_ab) ''u2'') = Some []
   \<and> fst (memory_write repr_stub written_ab ''u3'' (MStr ''B'') (Some [''u1''])) = ''u2''
   \<and> map_option edges
        (map_of (nodes (snd (memory_write repr_stub written_ab ''u3'' (MStr ''B'') (Some [''u1''])))) ''u2'')
       = Some [''u1'']"
  by (simp add: written_ab_eq get_hash_def memory_write_def add_node_def write_connect_def
      add_edge_def node_add_edge_def set_add_def Let_def)

subsection \<open>\<open>update\<close> re-keys the dedup index\<close>

lemma get_hash_normalised:
  "get_hash ds (MDict (case md of MStr s \<Rightarrow> [(''content'', VStr s)] | MDict d \<Rightarrow> d)) = get_hash ds md"
  by (cases md) (simp_all add: get_hash_def)

lemma update_metadata_index:
  "map_of (content_hash_to_id_map (snd (update_metadata ds nid md (n, g))))
     = ((map_of (content_hash_to_id_map g))(get_hash ds (MDict (metadata n)) := None))
         (get_hash ds md \<mapsto> nid)"
  by (auto simp: update_metadata_def Let_def get_hash_normalised update_conv' delete_conv' fun_eq_iff)

lemma memory_update_found:
  assumes "map_of (nodes g) nid = Some n"
  shows "fst (memory_update ds g nid md ac rc) = True"
    and "content_hash_to_id_map (snd (memory_update ds g nid md ac rc))
         = content_hash_to_id_map
             (case md of None \<Rightarrow> g | Some m \<Rightarrow> snd (update_metadata ds nid m (n, g)))"
  using assms
  by (simp_all add: memory_update_def get_node_def Let_def split: option.splits prod.splits)

text \<open>
  C5 (as amended). When \<open>update(node_id, metadata)\<close> replaces the metadata of an existing
  node, the old dedup key is removed from the index whenever it is present, whichever node it
  maps to, and the new key is then mapped to \<open>node_id\<close>, replacing any previous holder;
  all other entries stay.
\<close>

theorem update_rekey:
  assumes "map_of (nodes g) nid = Some n"
  shows "fst (memory_update ds g nid (Some md) ac rc) = True
    \<and> map_of (content_hash_to_id_map (snd (memory_update ds g nid (Some md) ac rc)))
        = ((map_of (content_hash_to_id_map g))(get_hash ds (MDict (metadata n)) := None))
            (get_hash ds md \<mapsto> nid)"
  using memory_update_found [OF assms, of ds "Some md" ac rc]
  by (simp add: update_metadata_index)

theorem update_rekey_witness:
  "map_of (nodes written_ab) ''u1''
     = Some \<lparr>node_id = ''u1'', metadata = [(''content'', VStr ''A'')], edges = []\<rparr>
   \<and> fst (memory_update repr_stub written_ab ''u1'' (Some (MStr ''C'')) None None) = True
   \<and> map_of (content_hash_to_id_map
              (snd (memory_update repr_stub written_ab ''u1'' (Some (MStr ''C'')) None None)))
        = [''B'' \<mapsto> ''u2'', ''C'' \<mapsto> ''u1'']"
proof -
  have a: "map_of (nodes written_ab) ''u1''
     = Some \<lparr>node_id = ''u1'', metadata = [(''content'', VStr ''A'')], edges = []\<rparr>"
    by (simp add: written_ab_eq)
  have b: "((map_of (content_hash_to_id_map written_ab))(''A'' := None))(''C'' \<mapsto> ''u1'')
            = [''B'' \<mapsto> ''u2'', ''C'' \<mapsto> ''u1'']"
    by (simp add: written_ab_eq fun_eq_iff)
  show ?thesis
    using update_rekey [OF a, of repr_stub "MStr ''C''" None None] a b
    by (simp add: get_hash_def)
qed

text \<open>
  C5 (as stated) fails. In \<open>collided\<close> the key "A" of node \<open>u1\<close> maps to the other node
  \<open>u2\<close>; \<open>update(u1, metadata="C")\<close> removes that mapping all the same.
\<close>

theorem update_rekey_counterexample:
  "map_option metadata (map_of (nodes collided) ''u1'') = Some [(''content'', VStr ''A'')]
   \<and> map_of (content_hash_to_id_map collided) ''A'' = Some ''u2''
   \<and> fst (memory_update repr_stub collided ''u1'' (Some (MStr ''C'')) None None) = True
   \<and> map_of (content_hash_to_id_map
              (snd (memory_update repr_stub collided ''u1'' (Some (MStr ''C'')) None None))) ''A''
        = None"
  by (simp add: collided_eq memory_update_def get_node_def update_metadata_def get_hash_def
      Let_def AList.delete_eq)

subsection \<open>The direction of the edges that \<open>write\<close> creates\<close>

lemma within_one: "within g S 1 = S \<union> (\<Union>v \<in> S. nbrs g v)"
  by simp

lemma update_fresh: "k \<notin> fst ` set al \<Longrightarrow> AList.update k v al = al @ [(k, v)]"
  by (induction al) auto

lemma add_node_frame:
  assumes "add_node ds g uid md = (i, g')"
    and "\<forall>e \<in> set (content_hash_to_id_map g). map_of (nodes g) (snd e) \<noteq> None"
  shows "map_of (nodes g') i \<noteq> None
      \<and> (\<forall>e \<in> set (content_hash_to_id_map g'). map_of (nodes g') (snd e) \<noteq> None)
      \<and> (\<forall>j. j \<noteq> i \<longrightarrow> map_of (nodes g') j = map_of (nodes g) j)
      \<and> (\<forall>j. map_of (nodes g) j \<noteq> None \<longrightarrow> map_of (nodes g') j \<noteq> None)
      \<and> nbrs g' i \<subseteq> nbrs g i
      \<and> (i = uid \<or> map_of (nodes g) i \<noteq> None)"
proof (cases "map_of (content_hash_to_id_map g) (get_hash ds md)")
    case (Some j)
    then have "((get_hash ds md), j) \<in> set (content_hash_to_id_map g)" by (rule map_of_SomeD)
    with assms(2) have "map_of (nodes g) j \<noteq> None" by force
    moreover from add_node_present [OF Some, of uid] assms(1) have "i = j" "g' = g" by simp_all
    ultimately show ?thesis
      using assms(2) by simp
  next
    case None
    from add_node_absent [OF None, of uid] assms(1) have i: "i = uid"
      and g': "g' = g\<lparr> nodes := AList.update uid (MemoryNode uid md) (nodes g),
              content_hash_to_id_map := AList.update (get_hash ds md) uid (content_hash_to_id_map g) \<rparr>"
      by simp_all
    have n: "map_of (nodes g') = (map_of (nodes g))(uid \<mapsto> MemoryNode uid md)"
      by (simp add: g' update_conv')
    have a: "map_of (nodes g') i \<noteq> None" by (simp add: n i)
    have b: "\<forall>e \<in> set (content_hash_to_id_map g'). map_of (nodes g') (snd e) \<noteq> None"
    proof
      fix e assume "e \<in> set (content_hash_to_id_map g')"
      then have "e \<in> set (AList.update (get_hash ds md) uid (content_hash_to_id_map g))" by (simp add: g')
      then have "e = ((get_hash ds md), uid) \<or> e \<in> set (content_hash_to_id_map g)"
        using None by (simp add: update_fresh map_of_eq_None_iff)
      with assms(2) show "map_of (nodes g') (snd e) \<noteq> None"
        by (auto simp: n)
    qed
    have c: "\<forall>j. j \<noteq> i \<longrightarrow> map_of (nodes g') j = map_of (nodes g) j" by (simp add: n i)
    have d: "\<forall>j. map_of (nodes g) j \<noteq> None \<longrightarrow> map_of (nodes g') j \<noteq> None" by (simp add: n)
    have e: "nbrs g' i \<subseteq> nbrs g i" by (simp add: nbrs_def n i MemoryNode_def)
    show ?thesis
      using a b c d e i by simp
qed





lemma ids_ok_empty: "ids_ok MemoryGraph"
  by (simp add: ids_ok_def MemoryGraph_def)

lemma ids_ok_edges:
  assumes "ids_ok g" "map_of (nodes g) i = Some n"
  shows "ids_ok (g\<lparr>nodes := AList.update i n' (nodes g)\<rparr>)"
proof -
  have "i \<in> fst ` set (nodes g)"
    using assms(2) by (metis map_of_eq_None_iff option.distinct(1))
  then have "fst ` set (AList.update i n' (nodes g)) = fst ` set (nodes g)"
    by (auto simp: dom_update)
  moreover have "map_of (nodes g) j \<noteq> None \<Longrightarrow> map_of (AList.update i n' (nodes g)) j \<noteq> None" for j
    by (simp add: update_conv')
  ultimately show ?thesis
    using assms(1) by (simp add: ids_ok_def)
qed

lemma ids_ok_add_node:
  assumes "ids_ok g" "uid \<noteq> []"
  shows "ids_ok (snd (add_node ds g uid md))"
proof -
  obtain i g' where a: "add_node ds g uid md = (i, g')" by (cases "add_node ds g uid md")
  from assms(1) have ix: "\<forall>e \<in> set (content_hash_to_id_map g). map_of (nodes g) (snd e) \<noteq> None"
    and ne: "[] \<notin> fst ` set (nodes g)"
    by (simp_all add: ids_ok_def)
  from add_node_frame [OF a ix]
  have ix': "\<forall>e \<in> set (content_hash_to_id_map g'). map_of (nodes g') (snd e) \<noteq> None"
    and same: "\<forall>j. j \<noteq> i \<longrightarrow> map_of (nodes g') j = map_of (nodes g) j"
    and i: "i = uid \<or> map_of (nodes g) i \<noteq> None"
    by blast+
  have "[] \<notin> fst ` set (nodes g')"
  proof
    assume "[] \<in> fst ` set (nodes g')"
    then have e: "map_of (nodes g') [] \<noteq> None" by (simp add: map_of_eq_None_iff)
    have "map_of (nodes g) [] = None" using ne by (simp add: map_of_eq_None_iff)
    with i assms(2) have "[] \<noteq> i" by auto
    with same have "map_of (nodes g') [] = map_of (nodes g) []" by simp
    with e \<open>map_of (nodes g) [] = None\<close> show False by simp
  qed
  with ix' a show ?thesis by (simp add: ids_ok_def)
qed

lemma ids_ok_write:
  assumes "ids_ok g" "uid \<noteq> []"
  shows "ids_ok (snd (memory_write ds g uid md connections))"
proof -
  obtain i g1 where a: "add_node ds g uid md = (i, g1)" by (cases "add_node ds g uid md")
  from ids_ok_add_node [OF assms, of ds md] a have o1: "ids_ok g1" by simp
  from assms(1) have ix: "\<forall>e \<in> set (content_hash_to_id_map g). map_of (nodes g) (snd e) \<noteq> None"
    by (simp add: ids_ok_def)
  from add_node_frame [OF a ix] obtain n where n: "map_of (nodes g1) i = Some n" by blast
  let ?cs = "case connections of None \<Rightarrow> [] | Some cs \<Rightarrow> cs"
  have w: "snd (memory_write ds g uid md connections) = fold (write_connect i) ?cs g1"
    using a by (auto simp: memory_write_def split: option.splits)
  from fold_write_connect [OF n, of ?cs] obtain es where
    "fold (write_connect i) ?cs g1 = g1\<lparr>nodes := AList.update i (n\<lparr>edges := es\<rparr>) (nodes g1)\<rparr>"
    by blast
  with ids_ok_edges [OF o1 n] w show ?thesis by simp
qed

lemma set_update_subset: "set (AList.update k v al) \<subseteq> insert (k, v) (set al)"
  by (induction al) auto

lemma update_metadata_frame:
  "nodes (snd (update_metadata ds nid m (n, g))) = nodes g
   \<and> (\<forall>e \<in> set (content_hash_to_id_map (snd (update_metadata ds nid m (n, g)))).
         snd e = nid \<or> e \<in> set (content_hash_to_id_map g))"
proof -
  let ?old = "get_hash ds (MDict (metadata n))"
  let ?m1 = "if map_of (content_hash_to_id_map g) ?old \<noteq> None
             then AList.delete ?old (content_hash_to_id_map g) else content_hash_to_id_map g"
  have m1: "set ?m1 \<subseteq> set (content_hash_to_id_map g)"
    by (auto simp: AList.delete_eq)
  let ?k = "get_hash ds (MDict (case m of MStr s \<Rightarrow> [(''content'', VStr s)] | MDict d \<Rightarrow> d))"
  have k: "snd (update_metadata ds nid m (n, g))
      = g\<lparr>content_hash_to_id_map := AList.update ?k nid ?m1\<rparr>"
    by (simp add: update_metadata_def Let_def)
  have "\<forall>e \<in> set (AList.update ?k nid ?m1). snd e = nid \<or> e \<in> set (content_hash_to_id_map g)"
    using set_update_subset [of ?k nid ?m1] m1 by fastforce
  then show ?thesis unfolding k by simp
qed

lemma ids_ok_update:
  assumes "ids_ok g"
  shows "ids_ok (snd (memory_update ds g nid md ac rc))"
proof (cases "map_of (nodes g) nid")
  case None
  with assms show ?thesis by (simp add: memory_update_def get_node_def)
next
  case (Some n)
  let ?ng = "case md of None \<Rightarrow> (n, g) | Some m \<Rightarrow> update_metadata ds nid m (n, g)"
  have nodes1: "nodes (snd ?ng) = nodes g"
    using update_metadata_frame by (cases md) simp_all
  have idx1: "\<forall>e \<in> set (content_hash_to_id_map (snd ?ng)). snd e = nid \<or> e \<in> set (content_hash_to_id_map g)"
    using update_metadata_frame by (cases md) simp_all
  have "\<forall>e \<in> set (content_hash_to_id_map (snd ?ng)). map_of (nodes (snd ?ng)) (snd e) \<noteq> None"
  proof
    fix e assume "e \<in> set (content_hash_to_id_map (snd ?ng))"
    with idx1 have "snd e = nid \<or> e \<in> set (content_hash_to_id_map g)" by blast
    then show "map_of (nodes (snd ?ng)) (snd e) \<noteq> None"
      unfolding nodes1 using Some assms by (auto simp: ids_ok_def)
  qed
  moreover have "[] \<notin> fst ` set (nodes (snd ?ng))"
    unfolding nodes1 using assms by (simp add: ids_ok_def)
  ultimately have o1: "ids_ok (snd ?ng)" by (simp add: ids_ok_def)
  have n1: "map_of (nodes (snd ?ng)) nid = Some n" unfolding nodes1 by (rule Some)
  let ?n2 = "case ac of None \<Rightarrow> fst ?ng | Some cs \<Rightarrow> fold (update_connect (snd ?ng)) cs (fst ?ng)"
  let ?n3 = "case rc of None \<Rightarrow> ?n2 | Some cs \<Rightarrow> fold node_remove_edge cs ?n2"
  have "snd (memory_update ds g nid md ac rc)
          = (snd ?ng)\<lparr>nodes := AList.update nid ?n3 (nodes (snd ?ng))\<rparr>"
    using Some by (simp add: memory_update_def get_node_def Let_def case_prod_beta)
  with ids_ok_edges [OF o1 n1, of ?n3] show ?thesis by simp
qed

subsection \<open>Writes keep the dedup index exact\<close>

lemma index_exact_empty: "index_exact ds MemoryGraph"
  by (simp add: index_exact_def MemoryGraph_def)

lemma index_exact_edges:
  assumes "index_exact ds g" "map_of (nodes g) i = Some n"
  shows "index_exact ds (g\<lparr>nodes := AList.update i (n\<lparr>edges := es\<rparr>) (nodes g)\<rparr>)"
proof -
  let ?al = "AList.update i (n\<lparr>edges := es\<rparr>) (nodes g)"
  have d: "distinct (map fst ?al)"
    using assms(1) by (simp add: index_exact_def distinct_update)
  have mem: "(i, n) \<in> set (nodes g)" using assms(2) by (rule map_of_SomeD)
  have two: "\<forall>p \<in> set ?al.
      map_of (content_hash_to_id_map g) (get_hash ds (MDict (metadata (snd p)))) = Some (fst p)"
  proof
    fix p assume "p \<in> set ?al"
    then have "map_of ?al (fst p) = Some (snd p)" using d by simp
    then have "((map_of (nodes g))(i \<mapsto> n\<lparr>edges := es\<rparr>)) (fst p) = Some (snd p)"
      by (simp add: update_conv')
    then have "(fst p = i \<and> snd p = n\<lparr>edges := es\<rparr>) \<or> (fst p, snd p) \<in> set (nodes g)"
      by (auto split: if_splits dest: map_of_SomeD)
    then show "map_of (content_hash_to_id_map g) (get_hash ds (MDict (metadata (snd p)))) = Some (fst p)"
      using assms(1) mem by (force simp: index_exact_def)
  qed
  have three: "\<forall>e \<in> set (content_hash_to_id_map g).
      (case map_of ?al (snd e) of None \<Rightarrow> False
       | Some m \<Rightarrow> get_hash ds (MDict (metadata m)) = fst e)"
  proof
    fix e assume e: "e \<in> set (content_hash_to_id_map g)"
    with assms(1) have o: "case map_of (nodes g) (snd e) of None \<Rightarrow> False
       | Some m \<Rightarrow> get_hash ds (MDict (metadata m)) = fst e"
      by (simp add: index_exact_def)
    show "case map_of ?al (snd e) of None \<Rightarrow> False
       | Some m \<Rightarrow> get_hash ds (MDict (metadata m)) = fst e"
    proof (cases "snd e = i")
      case True
      with o assms(2) show ?thesis by (simp add: update_conv')
    next
      case False
      with o show ?thesis by (simp add: update_conv')
    qed
  qed
  show ?thesis
    unfolding index_exact_def using d two three by simp
qed

lemma index_exact_add_node:
  assumes "index_exact ds g" "uid \<notin> fst ` set (nodes g)"
  shows "index_exact ds (snd (add_node ds g uid md))"
proof (cases "map_of (content_hash_to_id_map g) (get_hash ds md)")
  case (Some i)
  with assms(1) show ?thesis by (simp add: add_node_present)
next
  case None
  let ?k = "get_hash ds md"
  let ?nd = "MemoryNode uid md"
  let ?al = "AList.update uid ?nd (nodes g)"
  let ?ix = "AList.update ?k uid (content_hash_to_id_map g)"
  have fresh: "map_of (nodes g) uid = None"
    using assms(2) by (simp add: map_of_eq_None_iff)
  have al: "?al = nodes g @ [(uid, ?nd)]"
    using assms(2) by (rule update_fresh)
  have nk: "?k \<notin> fst ` set (content_hash_to_id_map g)"
    using None by (simp add: map_of_eq_None_iff)
  have d: "distinct (map fst ?al)"
    using assms(1) by (simp add: index_exact_def distinct_update)
  have two: "\<forall>p \<in> set ?al. map_of ?ix (get_hash ds (MDict (metadata (snd p)))) = Some (fst p)"
  proof
    fix p assume "p \<in> set ?al"
    then have "p = (uid, ?nd) \<or> p \<in> set (nodes g)" unfolding al by auto
    then show "map_of ?ix (get_hash ds (MDict (metadata (snd p)))) = Some (fst p)"
    proof
      assume "p = (uid, ?nd)"
      then show ?thesis by (simp add: update_conv' get_hash_MemoryNode)
    next
      assume p: "p \<in> set (nodes g)"
      with assms(1) have o: "map_of (content_hash_to_id_map g) (get_hash ds (MDict (metadata (snd p))))
           = Some (fst p)"
        by (simp add: index_exact_def)
      with None have "get_hash ds (MDict (metadata (snd p))) \<noteq> ?k" by auto
      with o show ?thesis by (simp add: update_conv')
    qed
  qed
  have three: "\<forall>e \<in> set ?ix.
      (case map_of ?al (snd e) of None \<Rightarrow> False
       | Some m \<Rightarrow> get_hash ds (MDict (metadata m)) = fst e)"
  proof
    fix e assume "e \<in> set ?ix"
    then have "e = (?k, uid) \<or> e \<in> set (content_hash_to_id_map g)"
      using update_fresh [OF nk, of uid] by auto
    then show "case map_of ?al (snd e) of None \<Rightarrow> False
       | Some m \<Rightarrow> get_hash ds (MDict (metadata m)) = fst e"
    proof
      assume "e = (?k, uid)"
      then show ?thesis by (simp add: update_conv' get_hash_MemoryNode)
    next
      assume e: "e \<in> set (content_hash_to_id_map g)"
      with assms(1) have o: "case map_of (nodes g) (snd e) of None \<Rightarrow> False
         | Some m \<Rightarrow> get_hash ds (MDict (metadata m)) = fst e"
        by (simp add: index_exact_def)
      then have "snd e \<noteq> uid" using fresh by (auto split: option.splits)
      with o show ?thesis by (simp add: update_conv')
    qed
  qed
  show ?thesis
    unfolding add_node_absent [OF None] index_exact_def using d two three by simp
qed

lemma add_node_node:
  assumes "index_exact ds g"
  shows "map_of (nodes (snd (add_node ds g uid md))) (fst (add_node ds g uid md)) \<noteq> None"
proof (cases "map_of (content_hash_to_id_map g) (get_hash ds md)")
  case None
  then show ?thesis by (simp add: add_node_absent update_conv')
next
  case (Some i)
  then have "(get_hash ds md, i) \<in> set (content_hash_to_id_map g)" by (rule map_of_SomeD)
  with assms have "map_of (nodes g) i \<noteq> None"
    by (fastforce simp: index_exact_def split: option.splits)
  with Some show ?thesis by (simp add: add_node_present)
qed

text \<open>
  The dedup index is exact on the empty graph and stays exact under \<open>write\<close> as long as
  the drawn id is not the id of a node already: it is exact in every graph built by
  writes alone.
\<close>

lemma index_exact_write:
  assumes "index_exact ds g" "uid \<notin> fst ` set (nodes g)"
  shows "index_exact ds (snd (memory_write ds g uid md connections))"
proof -
  obtain i g1 where a: "add_node ds g uid md = (i, g1)" by (cases "add_node ds g uid md")
  from index_exact_add_node [OF assms, of md] a have e1: "index_exact ds g1" by simp
  from add_node_node [OF assms(1), of uid md] a obtain n where n: "map_of (nodes g1) i = Some n"
    by auto
  let ?cs = "case connections of None \<Rightarrow> [] | Some cs \<Rightarrow> cs"
  have w: "snd (memory_write ds g uid md connections) = fold (write_connect i) ?cs g1"
    using a by (auto simp: memory_write_def split: option.splits)
  from fold_write_connect [OF n, of ?cs] obtain es where
    "fold (write_connect i) ?cs g1 = g1\<lparr>nodes := AList.update i (n\<lparr>edges := es\<rparr>) (nodes g1)\<rparr>"
    by blast
  with index_exact_edges [OF e1 n, of es] w show ?thesis by simp
qed

text \<open>On such a graph the nodes with a key are exactly the node that the index maps the key to.\<close>

lemma index_exact_key:
  assumes "index_exact ds g"
  shows "nodes_with_key ds g k
     = (case map_of (content_hash_to_id_map g) k of None \<Rightarrow> [] | Some i \<Rightarrow> [i])"
proof (cases "map_of (content_hash_to_id_map g) k")
  case None
  have "\<forall>p \<in> set (nodes g). get_hash ds (MDict (metadata (snd p))) \<noteq> k"
    using assms None by (auto simp: index_exact_def)
  then have "nodes_with_key ds g k = []"
    by (simp add: nodes_with_key_def filter_empty_conv)
  with None show ?thesis by simp
next
  case (Some i)
  with nodes_with_key_unique [OF assms Some] show ?thesis by simp
qed

subsection \<open>\<open>search\<close>: when it returns and how much\<close>

lemma collect_length: "collect f xs = Inr ys \<Longrightarrow> length ys = length xs"
  by (induction xs arbitrary: ys) (auto split: sum.splits)

lemma collect_map: "\<forall>x \<in> set xs. f x = Inr (h x) \<Longrightarrow> collect f xs = Inr (map h xs)"
  by (induction xs) auto

lemma lower_tokens_str: "is_str (get_text_content n) \<Longrightarrow> lower_tokens (get_text_content n) = Inr (node_tokens n)"
  by (cases "get_text_content n") (simp_all add: node_tokens_def)

lemma bm25_setup_ready:
  assumes "\<forall>p \<in> set (nodes g). is_str (get_text_content (snd p))"
    and "\<exists>p \<in> set (nodes g). node_tokens (snd p) \<noteq> []"
  shows "bm25_setup g
     = (None, g\<lparr> corpus := Some (map (\<lambda>p. node_tokens (snd p)) (nodes g)),
                  id_list := Some (map fst (nodes g)),
                  bm25 := Some (map (\<lambda>p. node_tokens (snd p)) (nodes g)) \<rparr>)"
proof -
  let ?c = "map (\<lambda>p. node_tokens (snd p)) (nodes g)"
  have "\<forall>p \<in> set (nodes g). lower_tokens (get_text_content (snd p)) = Inr (node_tokens (snd p))"
    using assms(1) by (simp add: lower_tokens_str)
  from collect_map [of "nodes g" "\<lambda>p. lower_tokens (get_text_content (snd p))"
        "\<lambda>p. node_tokens (snd p)", OF this]
  have c: "collect (\<lambda>p. lower_tokens (get_text_content (snd p))) (nodes g) = Inr ?c" .
  have "concat ?c \<noteq> []" using assms(2) by auto
  with c show ?thesis by (simp add: bm25_setup_def Let_def)
qed

lemma argsort_ok_set: "argsort_ok asort \<Longrightarrow> set (asort s) = {0..<length s}"
  by (simp add: argsort_ok_def)

lemma argsort_ok_distinct: "argsort_ok asort \<Longrightarrow> distinct (asort s)"
  by (simp add: argsort_ok_def)


lemma argsort_ok_length:
  assumes "argsort_ok asort"
  shows "length (asort s) = length s"
proof -
  have "length (asort s) = card (set (asort s))"
    using argsort_ok_distinct [OF assms] by (simp add: distinct_card)
  then show ?thesis by (simp add: argsort_ok_set [OF assms])
qed

lemma stable_argsort_ok: "argsort_ok stable_argsort"
  by (simp add: argsort_ok_def stable_argsort_def)

lemma length_get_scores: "length (get_scores score c q) = length c"
  by (simp add: get_scores_def)

lemma set_py_slice_from: "set (py_slice_from i xs) \<subseteq> set xs"
  by (auto simp: py_slice_from_def dest: in_set_dropD)

lemma bm25_search_after:
  assumes "bm25_stale g = Inr st" "(if st then bm25_setup g else (None, g)) = (None, g1)"
    and "bm25 g1 = Some b" "id_list g1 = Some il" "length b \<le> length il" "argsort_ok asort"
  shows "bm25_search asort score g q k
     = (Inr (map (\<lambda>i. il ! i) (py_slice_from (- k) (asort (get_scores score b (tokenize q))))), g1)"
proof -
  let ?top = "py_slice_from (- k) (asort (get_scores score b (tokenize q)))"
  have "set ?top \<subseteq> {0..<length b}"
    using set_py_slice_from [of "- k" "asort (get_scores score b (tokenize q))"]
    by (simp add: argsort_ok_set [OF assms(6)] length_get_scores)
  then have "\<forall>i \<in> set ?top. (if i < length il then Inr (il ! i) else Inl IndexError) = Inr (il ! i)"
    using assms(5) by auto
  from collect_map [of ?top _ "\<lambda>i. il ! i", OF this]
  have c: "collect (\<lambda>i. if i < length il then Inr (il ! i) else Inl IndexError) ?top
             = Inr (map (\<lambda>i. il ! i) ?top)" .
  show ?thesis
    unfolding bm25_search_def by (simp add: assms(1-4) Let_def c)
qed

text \<open>On a graph that is ready, the lexical search returns, from an index of the graph's ids.\<close>

lemma bm25_search_ready:
  assumes "argsort_ok asort" "lexical_ready g"
  shows "\<exists>b g1. bm25_search asort score g q k
       = (Inr (map (\<lambda>i. map fst (nodes g) ! i)
                 (py_slice_from (- k) (asort (get_scores score b (tokenize q))))), g1)
     \<and> bm25 g1 = Some b \<and> id_list g1 = Some (map fst (nodes g))
     \<and> length b \<le> length (nodes g) \<and> nodes g1 = nodes g
     \<and> content_hash_to_id_map g1 = content_hash_to_id_map g"
proof -
  from assms(2) have str: "\<forall>p \<in> set (nodes g). is_str (get_text_content (snd p))"
    and tok: "\<exists>p \<in> set (nodes g). node_tokens (snd p) \<noteq> []"
    by (simp_all add: lexical_ready_def)
  let ?c = "map (\<lambda>p. node_tokens (snd p)) (nodes g)"
  let ?g1 = "g\<lparr> corpus := Some ?c, id_list := Some (map fst (nodes g)), bm25 := Some ?c \<rparr>"
  note built = bm25_setup_ready [OF str tok]
  have rebuilt: "\<exists>b g1. bm25_search asort score g q k
       = (Inr (map (\<lambda>i. map fst (nodes g) ! i)
                 (py_slice_from (- k) (asort (get_scores score b (tokenize q))))), g1)
     \<and> bm25 g1 = Some b \<and> id_list g1 = Some (map fst (nodes g))
     \<and> length b \<le> length (nodes g) \<and> nodes g1 = nodes g
     \<and> content_hash_to_id_map g1 = content_hash_to_id_map g"
    if st: "bm25_stale g = Inr True"
  proof -
    have "bm25_search asort score g q k
       = (Inr (map (\<lambda>i. map fst (nodes g) ! i)
                 (py_slice_from (- k) (asort (get_scores score ?c (tokenize q))))), ?g1)"
      by (rule bm25_search_after [OF st _ _ _ _ assms(1)]) (simp_all add: built)
    then show ?thesis
      by (intro exI [of _ ?c] exI [of _ ?g1]) simp
  qed
  show ?thesis
  proof (cases "bm25 g")
    case None
    then have "bm25_stale g = Inr True" by (simp add: bm25_stale_def)
    then show ?thesis by (rule rebuilt)
  next
    case (Some b)
    with assms(2) obtain c where c: "corpus g = Some c"
      by (auto simp: lexical_ready_def split: option.splits)
    show ?thesis
    proof (cases "length c = length (nodes g)")
      case False
      with Some c have "bm25_stale g = Inr True" by (simp add: bm25_stale_def)
      then show ?thesis by (rule rebuilt)
    next
      case True
      with Some c have st: "bm25_stale g = Inr False" by (simp add: bm25_stale_def)
      from assms(2) Some c True have il: "id_list g = Some (map fst (nodes g))"
        and len: "length b \<le> length (nodes g)"
        by (simp_all add: lexical_ready_def)
      have "bm25_search asort score g q k
         = (Inr (map (\<lambda>i. map fst (nodes g) ! i)
                   (py_slice_from (- k) (asort (get_scores score b (tokenize q))))), g)"
        by (rule bm25_search_after [OF st _ Some il _ assms(1)]) (simp_all add: len)
      then show ?thesis
        using Some il len by (intro exI [of _ b] exI [of _ g]) simp
    qed
  qed
qed

lemma nbrs_closed:
  assumes "\<forall>p \<in> set (nodes g). \<forall>t \<in> set (edges (snd p)). map_of (nodes g) t \<noteq> None"
  shows "nbrs g v \<subseteq> {t. map_of (nodes g) t \<noteq> None}"
proof (cases "map_of (nodes g) v")
  case None
  then show ?thesis by (simp add: nbrs_def)
next
  case (Some n)
  then have "(v, n) \<in> set (nodes g)" by (rule map_of_SomeD)
  with assms have "\<forall>t \<in> set (edges n). map_of (nodes g) t \<noteq> None" by force
  with Some show ?thesis by (auto simp: nbrs_def)
qed

lemma within_closed:
  assumes "\<forall>p \<in> set (nodes g). \<forall>t \<in> set (edges (snd p)). map_of (nodes g) t \<noteq> None"
    and "S \<subseteq> {t. map_of (nodes g) t \<noteq> None}"
  shows "within g S n \<subseteq> {t. map_of (nodes g) t \<noteq> None}"
proof (induction n)
  case 0
  with assms(2) show ?case by simp
next
  case (Suc n)
  have "(\<Union>v \<in> within g S n. nbrs g v) \<subseteq> {t. map_of (nodes g) t \<noteq> None}"
    using nbrs_closed [OF assms(1)] by blast
  with Suc show ?case by simp
qed

lemma length_py_slice_to: "0 \<le> k \<Longrightarrow> length (py_slice_to k xs) \<le> nat k"
  by (simp add: py_slice_to_def)

lemma semantic_search_length:
  assumes "semantic_search sim g q cands k = Inr rs" "0 \<le> k"
  shows "length rs \<le> nat k"
proof (cases "cands = []")
  case True
  with assms show ?thesis by (simp add: semantic_search_def)
next
  case False
  with assms(1) obtain xs where "rs = py_slice_to k xs"
    by (auto simp: semantic_search_def Let_def split: sum.splits)
  with assms(2) show ?thesis by (simp add: length_py_slice_to)
qed

lemma semantic_search_total:
  assumes "\<forall>c \<in> set cands. map_of (nodes g) c \<noteq> None"
  shows "\<exists>rs. semantic_search sim g q cands k = Inr rs"
proof -
  let ?f = "\<lambda>node_id. case map_of (nodes g) node_id of
                         None \<Rightarrow> Inl KeyError
                       | Some n \<Rightarrow> Inr (node_id, get_text_content n)"
  let ?h = "\<lambda>node_id. (node_id, get_text_content (the (map_of (nodes g) node_id)))"
  have "\<forall>c \<in> set cands. ?f c = Inr (?h c)"
    using assms by auto
  from collect_map [of cands ?f ?h, OF this] show ?thesis
    by (simp add: semantic_search_def Let_def)
qed

lemma length_map_filter: "length (List.map_filter f xs) \<le> length xs"
  by (simp add: List.map_filter_def)

lemma memory_search_length:
  assumes "memory_search asort score sim g q k d c = (Inr rs, g')" "0 \<le> k"
  shows "length rs \<le> nat k"
proof (cases "nodes g = []")
  case True
  with assms show ?thesis by (simp add: memory_search_def)
next
  case False
  with assms(1) obtain ids g1 sr where
    sr: "semantic_search sim g1 q (bfs_exploration g1 ids d) k = Inr sr"
    and rs: "rs = List.map_filter (result_of g1) sr"
    by (auto simp: memory_search_def Let_def split: sum.splits prod.splits)
  have "length rs \<le> length sr" unfolding rs by (rule length_map_filter)
  also have "\<dots> \<le> nat k" using sr assms(2) by (rule semantic_search_length)
  finally show ?thesis .
qed

lemma memory_search_total:
  assumes "argsort_ok asort" "search_ready g"
  shows "\<exists>rs g1. memory_search asort score sim g q k d c = (Inr rs, g1)
           \<and> g1 = snd (bm25_search asort score g q c)
           \<and> nodes g1 = nodes g \<and> content_hash_to_id_map g1 = content_hash_to_id_map g"
proof -
  from assms(2) have lex: "lexical_ready g"
    and closed: "\<forall>p \<in> set (nodes g). \<forall>t \<in> set (edges (snd p)). map_of (nodes g) t \<noteq> None"
    by (simp_all add: search_ready_def)
  from lex have ne: "nodes g \<noteq> []" by (auto simp: lexical_ready_def)
  from bm25_search_ready [OF assms(1) lex, of score q c] obtain b g1 where
    b: "bm25_search asort score g q c
       = (Inr (map (\<lambda>i. map fst (nodes g) ! i)
                 (py_slice_from (- c) (asort (get_scores score b (tokenize q))))), g1)"
    and g1: "bm25 g1 = Some b" "length b \<le> length (nodes g)" "nodes g1 = nodes g"
      "content_hash_to_id_map g1 = content_hash_to_id_map g"
    by blast
  let ?top = "py_slice_from (- c) (asort (get_scores score b (tokenize q)))"
  let ?ids = "map (\<lambda>i. map fst (nodes g) ! i) ?top"
  have top: "set ?top \<subseteq> {0..<length (nodes g)}"
    using set_py_slice_from [of "- c" "asort (get_scores score b (tokenize q))"] g1(2)
    by (auto simp: argsort_ok_set [OF assms(1)] length_get_scores)
  have keys: "set ?ids \<subseteq> {t. map_of (nodes g1) t \<noteq> None}"
  proof
    fix x assume "x \<in> set ?ids"
    then obtain i where i: "i \<in> set ?top" "x = map fst (nodes g) ! i" by auto
    with top have "i < length (nodes g)" by auto
    then have "x \<in> fst ` set (nodes g)"
      unfolding i(2) by (metis length_map nth_mem set_map)
    then show "x \<in> {t. map_of (nodes g1) t \<noteq> None}"
      by (simp add: map_of_eq_None_iff g1(3))
  qed
  have closed1: "\<forall>p \<in> set (nodes g1). \<forall>t \<in> set (edges (snd p)). map_of (nodes g1) t \<noteq> None"
    using closed by (simp add: g1(3))
  have "set (bfs_exploration g1 ?ids d) \<subseteq> {t. map_of (nodes g1) t \<noteq> None}"
    unfolding bfs_exploration_within using closed1 keys by (rule within_closed)
  then have "\<forall>c \<in> set (bfs_exploration g1 ?ids d). map_of (nodes g1) c \<noteq> None"
    by blast
  from semantic_search_total [OF this, of sim q k] obtain sr where
    sr: "semantic_search sim g1 q (bfs_exploration g1 ?ids d) k = Inr sr"
    by blast
  have "memory_search asort score sim g q k d c = (Inr (List.map_filter (result_of g1) sr), g1)"
    using ne b sr by (simp add: memory_search_def Let_def)
  with b g1 show ?thesis by simp
qed


lemma two_nodes_ready: "search_ready two_nodes"
proof -
  have "node_tokens (snd (hd (nodes two_nodes))) = [''alpha'']"
    by code_simp
  then have "\<exists>p \<in> set (nodes two_nodes). node_tokens (snd p) \<noteq> []"
    by (simp add: two_nodes_def)
  then show ?thesis
    by (simp add: search_ready_def lexical_ready_def two_nodes_def get_text_content_def)
qed

text \<open>
  C4. For a positive \<open>top_k\<close>, every list that \<open>search\<close> returns has at most
  \<open>top_k\<close> records; on a graph where nothing can raise (\<open>search_ready\<close>, the sort
  meeting its contract) it does return one; and on a graph without nodes it returns the
  empty list, the graph untouched.
\<close>

theorem search_result_bound:
  assumes "0 < k"
  shows "(\<forall>rs g'. memory_search asort score sim g q k d c = (Inr rs, g') \<longrightarrow> int (length rs) \<le> k)
    \<and> (argsort_ok asort \<and> search_ready g \<longrightarrow>
         (\<exists>rs g'. memory_search asort score sim g q k d c = (Inr rs, g') \<and> int (length rs) \<le> k))
    \<and> (nodes g = [] \<longrightarrow> memory_search asort score sim g q k d c = (Inr [], g))"
proof (intro conjI allI impI)
  fix rs g'
  assume "memory_search asort score sim g q k d c = (Inr rs, g')"
  from memory_search_length [OF this] assms show "int (length rs) \<le> k" by simp
next
  assume "argsort_ok asort \<and> search_ready g"
  then have "argsort_ok asort" "search_ready g" by simp_all
  from memory_search_total [OF this, of score sim q k d c] obtain rs g' where
    r: "memory_search asort score sim g q k d c = (Inr rs, g')" by blast
  from memory_search_length [OF r] assms have "int (length rs) \<le> k" by simp
  with r show "\<exists>rs g'. memory_search asort score sim g q k d c = (Inr rs, g') \<and> int (length rs) \<le> k"
    by blast
next
  assume "nodes g = []"
  then show "memory_search asort score sim g q k d c = (Inr [], g)"
    by (simp add: memory_search_def)
qed

theorem search_result_bound_witness:
  "(0::int) < 1 \<and> argsort_ok (stable_argsort :: nat list \<Rightarrow> nat list) \<and> search_ready two_nodes
   \<and> map_sum id length
        (fst (memory_search stable_argsort overlap_score overlap_similarity two_nodes ''gamma'' 1 1 10))
       = Inr 1
   \<and> (\<exists>rs g'. memory_search stable_argsort overlap_score overlap_similarity two_nodes ''gamma'' 1 1 10
                  = (Inr rs, g') \<and> int (length rs) \<le> 1)
   \<and> memory_search stable_argsort overlap_score overlap_similarity MemoryGraph ''gamma'' 1 1 10
       = (Inr [], MemoryGraph)"
proof -
  have e: "map_sum id length
        (fst (memory_search stable_argsort overlap_score overlap_similarity two_nodes ''gamma'' 1 1 10))
       = Inr 1"
    by code_simp
  have p: "(0::int) < 1" by simp
  have n: "nodes MemoryGraph = []" by (simp add: MemoryGraph_def)
  have a: "argsort_ok (stable_argsort :: nat list \<Rightarrow> nat list)" by (rule stable_argsort_ok)
  from search_result_bound [OF p, of stable_argsort overlap_score overlap_similarity two_nodes
         "''gamma''" 1 10]
       search_result_bound [OF p, of stable_argsort overlap_score overlap_similarity MemoryGraph
         "''gamma''" 1 10]
       e n a two_nodes_ready
  show ?thesis by simp
qed



lemma py_slice_from_nonpos:
  "c \<le> 0 \<Longrightarrow> py_slice_from (- c) xs = drop (nat (- c)) xs"
  by (simp add: py_slice_from_def)




text \<open>
  C6 (as amended). \<open>search\<close> does not check \<open>bm25_candidates\<close>. On a graph where nothing
  can raise (\<open>search_ready\<close>), with a sort that meets its contract, a value \<open>c \<le> 0\<close>
  makes the lexical stage return the ascending ranking without its first \<open>- c\<close> entries,
  which for \<open>0\<close> is the whole ranking, and \<open>search\<close> returns a result list as for any
  other value; the nodes and the dedup index stay as they were.
\<close>

theorem nonpositive_candidates_accepted:
  assumes "argsort_ok asort" "search_ready g" "c \<le> 0"
  shows "\<exists>b rs g1. bm25_search asort score g q c
         = (Inr (map (\<lambda>p. map fst (nodes g) ! p)
                   (drop (nat (- c)) (asort (get_scores score b (tokenize q))))), g1)
     \<and> bm25 g1 = Some b \<and> length b \<le> length (nodes g)
     \<and> length (asort (get_scores score b (tokenize q))) = length b
     \<and> memory_search asort score sim g q k d c = (Inr rs, g1)
     \<and> nodes g1 = nodes g \<and> content_hash_to_id_map g1 = content_hash_to_id_map g"
proof -
  from assms(2) have lex: "lexical_ready g" by (simp add: search_ready_def)
  from bm25_search_ready [OF assms(1) lex, of score q c] obtain b g1 where
    s: "bm25_search asort score g q c
       = (Inr (map (\<lambda>i. map fst (nodes g) ! i)
                 (py_slice_from (- c) (asort (get_scores score b (tokenize q))))), g1)"
    and g1: "bm25 g1 = Some b" "length b \<le> length (nodes g)"
    by blast
  from memory_search_total [OF assms(1,2), of score sim q k d c] obtain rs g1' where
    m: "memory_search asort score sim g q k d c = (Inr rs, g1')"
       "g1' = snd (bm25_search asort score g q c)"
       "nodes g1' = nodes g" "content_hash_to_id_map g1' = content_hash_to_id_map g"
    by blast
  have same: "g1' = g1" using m(2) s by simp
  have b: "bm25_search asort score g q c
         = (Inr (map (\<lambda>p. map fst (nodes g) ! p)
                   (drop (nat (- c)) (asort (get_scores score b (tokenize q))))), g1)"
    using s by (simp add: py_slice_from_nonpos [OF assms(3)])
  have l: "length (asort (get_scores score b (tokenize q))) = length b"
    by (simp add: argsort_ok_length [OF assms(1)] length_get_scores)
  show ?thesis
    using b g1 l m(1,3,4) same by blast
qed

theorem nonpositive_candidates_accepted_witness:
  "argsort_ok (stable_argsort :: nat list \<Rightarrow> nat list) \<and> search_ready two_nodes \<and> (- 1 :: int) \<le> 0
   \<and> fst (bm25_search stable_argsort overlap_score two_nodes ''gamma'' (- 1)) = Inr [''n2'']
   \<and> (\<exists>rs g1. memory_search stable_argsort overlap_score overlap_similarity two_nodes ''gamma'' 5 1 (- 1)
                 = (Inr rs, g1) \<and> nodes g1 = nodes two_nodes)"
proof -
  have e: "fst (bm25_search stable_argsort overlap_score two_nodes ''gamma'' (- 1)) = Inr [''n2'']"
    by code_simp
  have c: "(- 1 :: int) \<le> 0" by simp
  have a: "argsort_ok (stable_argsort :: nat list \<Rightarrow> nat list)" by (rule stable_argsort_ok)
  from nonpositive_candidates_accepted [OF a two_nodes_ready c, of overlap_score "''gamma''"
        overlap_similarity 5 1]
  obtain rs g1 where
    "memory_search stable_argsort overlap_score overlap_similarity two_nodes ''gamma'' 5 1 (- 1)
       = (Inr rs, g1)" "nodes g1 = nodes two_nodes"
    by blast
  then have "\<exists>rs g1. memory_search stable_argsort overlap_score overlap_similarity two_nodes ''gamma'' 5 1 (- 1)
                 = (Inr rs, g1) \<and> nodes g1 = nodes two_nodes"
    by blast
  with e a c two_nodes_ready show ?thesis by blast
qed

text \<open>
  C6 (as stated) fails: with \<open>bm25_candidates = 0\<close> the search on the two-node graph is
  not rejected; it returns a list with both nodes.
\<close>

theorem nonpositive_candidates_counterexample:
  "map_sum id (\<lambda>rs. (length rs, ''n1'' \<in> set (map res_id rs), ''n2'' \<in> set (map res_id rs)))
     (fst (memory_search stable_argsort overlap_score overlap_similarity two_nodes ''gamma'' 5 1 0))
   = Inr (2, True, True)"
  by code_simp

end
